theory Spec2Isabelle
  imports Main
begin

section \<open>Data model\<close>

text \<open>
  The cleanup action of \<^verbatim>\<open>src/src/main.ts\<close> works on content digests and tags, both
  strings. A JavaScript \<^verbatim>\<open>Set\<close> that the code iterates is a list in insertion order
  without duplicates; a \<^verbatim>\<open>Map\<close> that is only looked up is a partial function.
\<close>

type_synonym digest = string
type_synonym tag = string

text \<open>
  A failed run: \<open>NotFound\<close> is the failure of a registry call, \<open>TypeError\<close> the read of a
  property of \<^verbatim>\<open>undefined\<close> (a package or a layer that is not there). Either aborts
  the run, so a function that fails returns no state.
\<close>

datatype error = NotFound | TypeError

record Platform =
  architecture :: "string option"
  variant :: "string option"

record Descriptor =
  digest :: digest
  platform :: "Platform option"
  artifactType :: "string option"

record Layer =
  mediaType :: string

text \<open>
  A manifest as \<^verbatim>\<open>main.ts\<close> reads it: the optional \<^verbatim>\<open>manifests\<close> array (present on
  an index), the optional \<^verbatim>\<open>layers\<close> array, and the rest of the document, which the
  code only copies.
\<close>

record Manifest =
  manifests :: "Descriptor list option"
  layers :: "Layer list option"
  body :: string

text \<open>
  A package version: \<^verbatim>\<open>id\<close> (opaque; an id that is present counts as found),
  \<^verbatim>\<open>name\<close> (the digest), \<^verbatim>\<open>metadata.container.tags\<close> and \<^verbatim>\<open>updated_at\<close>
  (the date in milliseconds, absent when the field is missing or does not parse). The configuration holds the values
  \<^verbatim>\<open>main.ts\<close> reads from \<^verbatim>\<open>Config\<close> of \<^verbatim>\<open>src/src/config.ts\<close>; an optional string or
  number is absent as \<open>None\<close>.
\<close>

record GhPackage =
  pkg_id :: nat
  name :: digest
  tags :: "tag list"
  updated_at :: "int option"

record Config =
  cfg_deleteTags :: "string option"
  cfg_excludeTags :: "string option"
  cfg_olderThan :: "int option"
  cfg_deleteUntagged :: bool
  cfg_deleteGhostImages :: bool
  cfg_deletePartialImages :: bool
  cfg_keepNuntagged :: "nat option"
  cfg_keepNtagged :: "nat option"
  cfg_validate :: bool

text \<open>
  Modelled from the spec: the two collaborators of \<^verbatim>\<open>main.ts\<close>, \<^verbatim>\<open>Registry\<close> and
  \<^verbatim>\<open>GithubPackageRepo\<close>, are imported from \<^verbatim>\<open>registry.js\<close> and
  \<^verbatim>\<open>github-package.js\<close>, which are not among the sources. Their state follows the
  interface of section 6: the registry resolves digests and tags, the package client holds the
  loaded listing (\<open>loaded\<close>) beside the listing the service would return on the next
  load (\<open>hosted\<close>). \<open>digestOf\<close> is the content address the store gives a pushed
  manifest. The store is eventually consistent (section 1): \<open>listsPushes\<close> says whether
  the package service already lists a manifest that has just been pushed to the
  registry.
\<close>

record Registry =
  manifestStore :: "digest \<rightharpoonup> Manifest"
  tagStore :: "tag \<rightharpoonup> digest"
  digestOf :: "Manifest \<Rightarrow> digest"

record GithubPackageRepo =
  loaded :: "GhPackage list"
  hosted :: "GhPackage list"
  nextId :: nat
  listsPushes :: bool

text \<open>The mutating calls the action makes on its collaborators, in order.\<close>

datatype Call =
    PutManifest tag Manifest bool
  | DeleteTag tag
  | LoadPackages bool
  | DeletePackageVersion nat digest "tag list" "string option"

text \<open>
  The fields of \<^verbatim>\<open>class CleanupAction\<close>, lines 20-49, with the value of
  \<^verbatim>\<open>Date.now()\<close> (one reading for the run) and the log of the mutating calls.
\<close>

record CleanupAction =
  config :: Config
  excludeTags :: "tag list"
  registry :: Registry
  githubPackageRepo :: GithubPackageRepo
  filterSet :: "digest list"
  deleteSet :: "digest list"
  tagsInUse :: "tag list"
  digestUsedBy :: "digest \<rightharpoonup> digest list"
  deleted :: "digest list"
  numberMultiImagesDeleted :: nat
  numberImagesDeleted :: nat
  dateNow :: int
  calls :: "Call list"

section \<open>JavaScript sets as lists\<close>

definition setAdd :: "'a \<Rightarrow> 'a list \<Rightarrow> 'a list" where
  "setAdd x xs = (if x \<in> set xs then xs else xs @ [x])"

definition setDelete :: "'a \<Rightarrow> 'a list \<Rightarrow> 'a list" where
  "setDelete x xs = removeAll x xs"

fun toSet :: "'a list \<Rightarrow> 'a list \<Rightarrow> 'a list" where
  "toSet acc [] = acc"
| "toSet acc (x # xs) = toSet (setAdd x acc) xs"

section \<open>The collaborators\<close>

text \<open>
  Modelled from the spec: \<^verbatim>\<open>getManifestByDigest(digest) -> Manifest\<close>, fails with
  NotFound if absent; \<^verbatim>\<open>getTagDigest(tag)\<close>; \<^verbatim>\<open>getManifestByTag(tag)\<close>.
\<close>

definition getManifestByDigest :: "CleanupAction \<Rightarrow> digest \<Rightarrow> error + Manifest" where
  "getManifestByDigest s d =
     (case manifestStore (registry s) d of None \<Rightarrow> Inl NotFound | Some m \<Rightarrow> Inr m)"

definition getTagDigest :: "CleanupAction \<Rightarrow> tag \<Rightarrow> error + digest" where
  "getTagDigest s t =
     (case tagStore (registry s) t of None \<Rightarrow> Inl NotFound | Some d \<Rightarrow> Inr d)"

definition getManifestByTag :: "CleanupAction \<Rightarrow> tag \<Rightarrow> error + Manifest" where
  "getManifestByTag s t =
     (case getTagDigest s t of Inl e \<Rightarrow> Inl e | Inr d \<Rightarrow> getManifestByDigest s d)"

text \<open>
  Modelled from the spec: the read-only, digest-indexed views of the loaded listing:
  \<^verbatim>\<open>getDigests\<close>, \<^verbatim>\<open>getTags\<close> (union of all tags), \<^verbatim>\<open>getDigestByTag\<close>,
  \<^verbatim>\<open>getPackageByDigest\<close>, \<^verbatim>\<open>getIdByDigest\<close> (absent when the digest is not loaded).
\<close>

definition getDigests :: "CleanupAction \<Rightarrow> digest list" where
  "getDigests s = toSet [] (map name (loaded (githubPackageRepo s)))"

definition getTags :: "CleanupAction \<Rightarrow> tag list" where
  "getTags s = toSet [] (concat (map tags (loaded (githubPackageRepo s))))"

definition getPackageByDigest :: "CleanupAction \<Rightarrow> digest \<Rightarrow> GhPackage option" where
  "getPackageByDigest s d = find (\<lambda>p. name p = d) (loaded (githubPackageRepo s))"

definition getDigestByTag :: "CleanupAction \<Rightarrow> tag \<Rightarrow> digest option" where
  "getDigestByTag s t =
     map_option name (find (\<lambda>p. t \<in> set (tags p)) (loaded (githubPackageRepo s)))"

definition getIdByDigest :: "CleanupAction \<Rightarrow> digest \<Rightarrow> nat option" where
  "getIdByDigest s d = map_option pkg_id (getPackageByDigest s d)"

text \<open>
  Modelled from the spec: \<^verbatim>\<open>deletePackageVersion(id, digest, tags, label?)\<close> removes the
  version from the service; the loaded listing is a view that only
  \<^verbatim>\<open>loadPackages\<close> refreshes.
\<close>

definition deletePackageVersion ::
  "nat \<Rightarrow> digest \<Rightarrow> tag list \<Rightarrow> string option \<Rightarrow> CleanupAction \<Rightarrow> CleanupAction" where
  "deletePackageVersion i d ts lbl s =
     s\<lparr>githubPackageRepo := (githubPackageRepo s)
          \<lparr>hosted := filter (\<lambda>p. pkg_id p \<noteq> i) (hosted (githubPackageRepo s))\<rparr>,
       calls := calls s @ [DeletePackageVersion i d ts lbl]\<rparr>"

definition loadPackages :: "bool \<Rightarrow> CleanupAction \<Rightarrow> CleanupAction" where
  "loadPackages resetPageCache s =
     s\<lparr>githubPackageRepo := (githubPackageRepo s)\<lparr>loaded := hosted (githubPackageRepo s)\<rparr>,
       calls := calls s @ [LoadPackages resetPageCache]\<rparr>"

section \<open>Ghost and partial images\<close>

text \<open>
  \<^verbatim>\<open>deleteGhostImages\<close>, lines 361-397. The inner loop counts the children for which
  \<^verbatim>\<open>getIdByDigest\<close> gives nothing; the image is a ghost when the count equals the
  length of \<^verbatim>\<open>manifests\<close>. The outer loop runs over \<^verbatim>\<open>filterSet\<close> and deletes only
  the element it is visiting, so it visits every element of the set as it was.
\<close>

fun countMissing :: "CleanupAction \<Rightarrow> Descriptor list \<Rightarrow> nat" where
  "countMissing s [] = 0"
| "countMissing s (c # cs) =
     (if getIdByDigest s (digest c) = None then 1 + countMissing s cs
      else countMissing s cs)"

definition isGhost :: "CleanupAction \<Rightarrow> Manifest \<Rightarrow> bool" where
  "isGhost s m =
     (case manifests m of None \<Rightarrow> False | Some cs \<Rightarrow> countMissing s cs = length cs)"

definition moveToDelete :: "digest \<Rightarrow> CleanupAction \<Rightarrow> CleanupAction" where
  "moveToDelete d s =
     s\<lparr>filterSet := setDelete d (filterSet s), deleteSet := setAdd d (deleteSet s)\<rparr>"

fun ghostLoop :: "digest list \<Rightarrow> CleanupAction \<Rightarrow> error + CleanupAction" where
  "ghostLoop [] s = Inr s"
| "ghostLoop (d # ds) s =
     (case getManifestByDigest s d of
        Inl e \<Rightarrow> Inl e
      | Inr m \<Rightarrow>
          if isGhost s m then
            (case getPackageByDigest s d of
               None \<Rightarrow> Inl TypeError
             | Some ghPackage \<Rightarrow> ghostLoop ds (moveToDelete d s))
          else ghostLoop ds s)"

definition deleteGhostImages :: "CleanupAction \<Rightarrow> error + CleanupAction" where
  "deleteGhostImages s = ghostLoop (filterSet s) s"

text \<open>
  \<^verbatim>\<open>deletePartialImages\<close>, lines 399-432: the inner loop stops at the first child for
  which \<^verbatim>\<open>getIdByDigest\<close> gives nothing and marks the image partial.
\<close>

fun someMissing :: "CleanupAction \<Rightarrow> Descriptor list \<Rightarrow> bool" where
  "someMissing s [] = False"
| "someMissing s (c # cs) =
     (if getIdByDigest s (digest c) = None then True else someMissing s cs)"

definition isPartial :: "CleanupAction \<Rightarrow> Manifest \<Rightarrow> bool" where
  "isPartial s m = (case manifests m of None \<Rightarrow> False | Some cs \<Rightarrow> someMissing s cs)"

fun partialLoop :: "digest list \<Rightarrow> CleanupAction \<Rightarrow> error + CleanupAction" where
  "partialLoop [] s = Inr s"
| "partialLoop (d # ds) s =
     (case getManifestByDigest s d of
        Inl e \<Rightarrow> Inl e
      | Inr m \<Rightarrow>
          if isPartial s m then
            (case getPackageByDigest s d of
               None \<Rightarrow> Inl TypeError
             | Some ghPackage \<Rightarrow> partialLoop ds (moveToDelete d s))
          else partialLoop ds s)"

definition deletePartialImages :: "CleanupAction \<Rightarrow> error + CleanupAction" where
  "deletePartialImages s = partialLoop (filterSet s) s"

text \<open>The choice of \<^verbatim>\<open>run\<close>, lines 682-686: partial detection wins over ghost detection.\<close>

definition runPartialOrGhost :: "CleanupAction \<Rightarrow> error + CleanupAction" where
  "runPartialOrGhost s =
     (if cfg_deletePartialImages (config s) then deletePartialImages s
      else if cfg_deleteGhostImages (config s) then deleteGhostImages s
      else Inr s)"

section \<open>The cascading deletion\<close>

text \<open>
  \<^verbatim>\<open>String.prototype.replace\<close> with a string pattern replaces the first occurrence;
  the referrer tag of \<^verbatim>\<open>sha256:<hex>\<close> is \<^verbatim>\<open>sha256-<hex>\<close>.
\<close>

fun replaceFirst :: "string \<Rightarrow> string \<Rightarrow> string \<Rightarrow> string" where
  "replaceFirst pat rep [] = (if pat = [] then rep else [])"
| "replaceFirst pat rep (c # cs) =
     (if take (length pat) (c # cs) = pat then rep @ drop (length pat) (c # cs)
      else c # replaceFirst pat rep cs)"

definition referrerTag :: "digest \<Rightarrow> tag" where
  "referrerTag d = replaceFirst ''sha256:'' ''sha256-'' d"

definition startsWith :: "string \<Rightarrow> string \<Rightarrow> bool" where
  "startsWith s p = (take (length p) s = p)"

text \<open>\<^verbatim>\<open>buildLabel\<close>, lines 248-285. A string is truthy when it is present and not empty.\<close>

definition truthy :: "string option \<Rightarrow> bool" where
  "truthy v = (case v of None \<Rightarrow> False | Some x \<Rightarrow> x \<noteq> [])"

definition buildLabel :: "CleanupAction \<Rightarrow> Descriptor \<Rightarrow> error + string" where
  "buildLabel s imageManifest =
     (case platform imageManifest of
        Some pf \<Rightarrow>
          (let label = (case architecture pf of None \<Rightarrow> [] | Some a \<Rightarrow> a) in
           if label \<noteq> ''unknown'' then
             Inr (''architecture: '' @
                  (case variant pf of
                     None \<Rightarrow> label
                   | Some v \<Rightarrow> if v \<noteq> [] then label @ ''/'' @ v else label))
           else
             (case getManifestByDigest s (digest imageManifest) of
                Inl e \<Rightarrow> Inl e
              | Inr manifest \<Rightarrow>
                  (case layers manifest of
                     None \<Rightarrow> Inr label
                   | Some [] \<Rightarrow> Inl TypeError
                   | Some (l # ls) \<Rightarrow>
                       if mediaType l = ''application/vnd.in-toto+json''
                       then Inr ''application/vnd.in-toto+json'' else Inr label)))
      | None \<Rightarrow>
          (case artifactType imageManifest of
             None \<Rightarrow> Inr []
           | Some a \<Rightarrow>
               if a = [] then Inr []
               else if startsWith a ''application/vnd.dev.sigstore.bundle''
               then Inr ''sigstore attestation'' else Inr a))"

text \<open>
  \<^verbatim>\<open>deleteImage\<close>, lines 287-359. \<open>deleteTop\<close> is lines 293-299; \<open>deleteChildren\<close> is
  the loop of lines 304-342 over the children of an index: a child known to the
  package listing and not yet deleted is deleted when the image is its only recorded
  parent, else the image is taken out of its parents.
\<close>

definition deleteTop :: "GhPackage \<Rightarrow> CleanupAction \<Rightarrow> CleanupAction" where
  "deleteTop ghPackage s =
     (deletePackageVersion (pkg_id ghPackage) (name ghPackage) (tags ghPackage) None s)
       \<lparr>deleted := setAdd (name ghPackage) (deleted s),
        numberImagesDeleted := numberImagesDeleted s + 1\<rparr>"

definition deleteChild :: "GhPackage \<Rightarrow> string \<Rightarrow> CleanupAction \<Rightarrow> CleanupAction" where
  "deleteChild manifestPackage label s =
     (deletePackageVersion (pkg_id manifestPackage) (name manifestPackage) [] (Some label) s)
       \<lparr>deleted := setAdd (name manifestPackage) (deleted s),
        numberImagesDeleted := numberImagesDeleted s + 1,
        digestUsedBy := (digestUsedBy s)(name manifestPackage := None)\<rparr>"

fun deleteChildren ::
  "GhPackage \<Rightarrow> Descriptor list \<Rightarrow> CleanupAction \<Rightarrow> error + CleanupAction" where
  "deleteChildren ghPackage [] s = Inr s"
| "deleteChildren ghPackage (imageManifest # rest) s =
     (case getPackageByDigest s (digest imageManifest) of
        None \<Rightarrow> deleteChildren ghPackage rest s
      | Some manifestPackage \<Rightarrow>
          if name manifestPackage \<in> set (deleted s) then deleteChildren ghPackage rest s
          else
            (case digestUsedBy s (name manifestPackage) of
               None \<Rightarrow> deleteChildren ghPackage rest s
             | Some parents \<Rightarrow>
                 if length parents = 1 \<and> name ghPackage \<in> set parents then
                   (case buildLabel s imageManifest of
                      Inl e \<Rightarrow> Inl e
                    | Inr label \<Rightarrow>
                        deleteChildren ghPackage rest (deleteChild manifestPackage label s))
                 else
                   deleteChildren ghPackage rest
                     (s\<lparr>digestUsedBy := (digestUsedBy s)
                          (name manifestPackage \<mapsto> setDelete (name ghPackage) parents)\<rparr>)))"

definition deleteManifestChildren ::
  "GhPackage \<Rightarrow> Manifest \<Rightarrow> CleanupAction \<Rightarrow> error + CleanupAction" where
  "deleteManifestChildren ghPackage manifest s =
     (case manifests manifest of
        None \<Rightarrow> Inr s
      | Some cs \<Rightarrow>
          deleteChildren ghPackage cs
            (s\<lparr>numberMultiImagesDeleted := numberMultiImagesDeleted s + 1\<rparr>))"

definition referrerActive :: "digest \<Rightarrow> CleanupAction \<Rightarrow> bool" where
  "referrerActive d s =
     (referrerTag d \<in> set (tagsInUse s) \<and> referrerTag d \<notin> set (excludeTags s))"

function deleteImage :: "GhPackage \<Rightarrow> CleanupAction \<Rightarrow> error + CleanupAction" where
  "deleteImage ghPackage s =
     (if name ghPackage \<in> set (deleted s) then Inr s
      else
        (case getManifestByDigest s (name ghPackage) of
           Inl e \<Rightarrow> Inl e
         | Inr manifest \<Rightarrow>
             (case deleteManifestChildren ghPackage manifest (deleteTop ghPackage s) of
                Inl e \<Rightarrow> Inl e
              | Inr s' \<Rightarrow>
                  if referrerActive (name ghPackage) s' then
                    (case getTagDigest s' (referrerTag (name ghPackage)) of
                       Inl e \<Rightarrow> Inl e
                     | Inr manifestDigest \<Rightarrow>
                         (case getPackageByDigest s' manifestDigest of
                            None \<Rightarrow> Inl TypeError
                          | Some attestationPackage \<Rightarrow> deleteImage attestationPackage s'))
                  else Inr s')))"
  by pat_completeness auto

text \<open>\<^verbatim>\<open>doDelete\<close>, lines 661-673.\<close>

fun doDeleteLoop :: "digest list \<Rightarrow> CleanupAction \<Rightarrow> error + CleanupAction" where
  "doDeleteLoop [] s = Inr s"
| "doDeleteLoop (deleteDigest # ds) s =
     (case getPackageByDigest s deleteDigest of
        None \<Rightarrow> Inl TypeError
      | Some ghPackage \<Rightarrow>
          (case deleteImage ghPackage s of
             Inl e \<Rightarrow> Inl e
           | Inr s' \<Rightarrow> doDeleteLoop ds s'))"

definition doDelete :: "CleanupAction \<Rightarrow> error + CleanupAction" where
  "doDelete s = (if length (deleteSet s) > 0 then doDeleteLoop (deleteSet s) s else Inr s)"

section \<open>The reload: graph builder and candidate set reducer\<close>

text \<open>\<^verbatim>\<open>loadDigestUsedByMap\<close>, lines 128-163: only children that are known digests are mapped.\<close>

fun mapChildren ::
  "digest list \<Rightarrow> digest \<Rightarrow> Descriptor list \<Rightarrow> (digest \<rightharpoonup> digest list) \<Rightarrow> (digest \<rightharpoonup> digest list)"
  where
  "mapChildren digests d [] m = m"
| "mapChildren digests d (imageManifest # rest) m =
     (if digest imageManifest \<in> set digests then
        mapChildren digests d rest
          (m(digest imageManifest \<mapsto>
               setAdd d (case m (digest imageManifest) of None \<Rightarrow> [] | Some parents \<Rightarrow> parents)))
      else mapChildren digests d rest m)"

fun usedByLoop :: "digest list \<Rightarrow> digest list \<Rightarrow> CleanupAction \<Rightarrow> error + CleanupAction" where
  "usedByLoop digests [] s = Inr s"
| "usedByLoop digests (d # ds) s =
     (case getManifestByDigest s d of
        Inl e \<Rightarrow> Inl e
      | Inr manifest \<Rightarrow>
          usedByLoop digests ds
            (case manifests manifest of
               None \<Rightarrow> s
             | Some cs \<Rightarrow> s\<lparr>digestUsedBy := mapChildren digests d cs (digestUsedBy s)\<rparr>))"

definition loadDigestUsedByMap :: "CleanupAction \<Rightarrow> error + CleanupAction" where
  "loadDigestUsedByMap s =
     usedByLoop (getDigests s) (getDigests s) (s\<lparr>digestUsedBy := Map.empty\<rparr>)"

text \<open>
  \<^verbatim>\<open>trimChildren\<close>, lines 169-196. \<open>trimManifest\<close> removes the children of an index from
  a set; the referrer part reads \<^verbatim>\<open>this.excludeTags\<close> as it stands when the method
  runs.
\<close>

definition trimManifest :: "Manifest \<Rightarrow> digest list \<Rightarrow> digest list" where
  "trimManifest manifest fs =
     (case manifests manifest of
        None \<Rightarrow> fs
      | Some cs \<Rightarrow> foldl (\<lambda>acc imageManifest. setDelete (digest imageManifest) acc) fs cs)"

fun trimLoop :: "digest list \<Rightarrow> CleanupAction \<Rightarrow> error + CleanupAction" where
  "trimLoop [] s = Inr s"
| "trimLoop (d # ds) s =
     (case getManifestByDigest s d of
        Inl e \<Rightarrow> Inl e
      | Inr manifest \<Rightarrow>
          if referrerActive d s then
            (case getTagDigest s (referrerTag d) of
               Inl e \<Rightarrow> Inl e
             | Inr referrerDigest \<Rightarrow>
                 (case getManifestByTag s (referrerTag d) of
                    Inl e \<Rightarrow> Inl e
                  | Inr referrerManifest \<Rightarrow>
                      trimLoop ds
                        (s\<lparr>filterSet :=
                             trimManifest referrerManifest
                               (setDelete referrerDigest
                                  (trimManifest manifest (filterSet s)))\<rparr>)))
          else trimLoop ds (s\<lparr>filterSet := trimManifest manifest (filterSet s)\<rparr>))"

definition trimChildren :: "CleanupAction \<Rightarrow> error + CleanupAction" where
  "trimChildren s = trimLoop (getDigests s) s"

text \<open>
  The exclude-tag trim, lines 79-92 of \<^verbatim>\<open>reload\<close>. The glob matcher
  \<^verbatim>\<open>wildcard-match\<close> is a library: it is the parameter \<open>wcmatch\<close>, from a pattern
  list to a predicate on tags. A digest is truthy when it is not the empty string.
\<close>

fun splitAcc :: "string \<Rightarrow> string \<Rightarrow> string list" where
  "splitAcc cur [] = [cur]"
| "splitAcc cur (c # cs) =
     (if c = CHR '','' then cur # splitAcc [] cs else splitAcc (cur @ [c]) cs)"

definition splitComma :: "string \<Rightarrow> string list" where
  "splitComma s = splitAcc [] s"

fun excludeLoop :: "(tag \<Rightarrow> bool) \<Rightarrow> tag list \<Rightarrow> CleanupAction \<Rightarrow> CleanupAction" where
  "excludeLoop isTagMatch [] s = s"
| "excludeLoop isTagMatch (t # ts) s =
     (if isTagMatch t then
        excludeLoop isTagMatch ts
          (s\<lparr>filterSet :=
               (case getDigestByTag s t of
                  None \<Rightarrow> filterSet s
                | Some d \<Rightarrow> if d \<noteq> [] then setDelete d (filterSet s) else filterSet s),
             excludeTags := excludeTags s @ [t]\<rparr>)
      else excludeLoop isTagMatch ts s)"

definition excludeTrim :: "(string list \<Rightarrow> tag \<Rightarrow> bool) \<Rightarrow> CleanupAction \<Rightarrow> CleanupAction" where
  "excludeTrim wcmatch s =
     (case cfg_excludeTags (config s) of
        None \<Rightarrow> s\<lparr>excludeTags := []\<rparr>
      | Some pat \<Rightarrow>
          if pat \<noteq> [] then
            excludeLoop (wcmatch (splitComma pat)) (tagsInUse s) (s\<lparr>excludeTags := []\<rparr>)
          else s\<lparr>excludeTags := []\<rparr>)"

text \<open>
  The age trim, lines 95-121 of \<^verbatim>\<open>reload\<close>: a package with an \<^verbatim>\<open>updated_at\<close> at or
  after the cut-off leaves the filter set. The loop deletes only the element it visits.
  Both sides of the comparison of line 105 are \<^verbatim>\<open>Date\<close> objects: a time value beyond
  8.64e15 milliseconds from the epoch makes an invalid date, and a comparison with an
  invalid date is false, so that nothing is trimmed. \<^verbatim>\<open>Date.now()\<close> is called at each
  digest; the model takes the readings of one run to be the one value \<open>dateNow\<close>, the
  clock standing still while the action runs.
\<close>

definition validDate :: "int \<Rightarrow> bool" where
  "validDate t = (- 8640000000000000 \<le> t \<and> t \<le> 8640000000000000)"

definition notOlder :: "CleanupAction \<Rightarrow> int \<Rightarrow> int \<Rightarrow> bool" where
  "notOlder s olderThan packageDate =
     (validDate packageDate \<and> validDate (dateNow s - olderThan) \<and>
      packageDate \<ge> dateNow s - olderThan)"

fun ageLoop :: "int \<Rightarrow> digest list \<Rightarrow> CleanupAction \<Rightarrow> error + CleanupAction" where
  "ageLoop olderThan [] s = Inr s"
| "ageLoop olderThan (d # ds) s =
     (case getPackageByDigest s d of
        None \<Rightarrow> Inl TypeError
      | Some ghPackage \<Rightarrow>
          (case updated_at ghPackage of
             None \<Rightarrow> ageLoop olderThan ds s
           | Some packageDate \<Rightarrow>
               if notOlder s olderThan packageDate
               then ageLoop olderThan ds (s\<lparr>filterSet := setDelete d (filterSet s)\<rparr>)
               else ageLoop olderThan ds s))"

definition ageTrim :: "CleanupAction \<Rightarrow> error + CleanupAction" where
  "ageTrim s =
     (case cfg_olderThan (config s) of
        None \<Rightarrow> Inr s
      | Some olderThan \<Rightarrow> if olderThan \<noteq> 0 then ageLoop olderThan (filterSet s) s else Inr s)"

text \<open>\<^verbatim>\<open>reload\<close>, lines 62-122.\<close>

definition reloadStart :: "CleanupAction \<Rightarrow> CleanupAction" where
  "reloadStart s =
     (let s1 = loadPackages True (s\<lparr>deleteSet := [], deleted := []\<rparr>)
      in s1\<lparr>filterSet := getDigests s1, tagsInUse := getTags s1\<rparr>)"

definition reload :: "(string list \<Rightarrow> tag \<Rightarrow> bool) \<Rightarrow> CleanupAction \<Rightarrow> error + CleanupAction" where
  "reload wcmatch s =
     (case loadDigestUsedByMap (reloadStart s) of
        Inl e \<Rightarrow> Inl e
      | Inr s3 \<Rightarrow>
          (case trimChildren s3 of
             Inl e \<Rightarrow> Inl e
           | Inr s4 \<Rightarrow> ageTrim (excludeTrim wcmatch s4)))"

section \<open>The validator\<close>

text \<open>
  \<^verbatim>\<open>validate\<close>, lines 199-246. The result is the list of warnings in the order they are
  issued; the method calls nothing that changes the collaborators or the sets.
\<close>

datatype Warning =
    NotFoundOnImage digest "tag list"
  | NotFoundOnUntagged digest digest
  | OrphanReferrerTag tag

fun validateChildren ::
  "CleanupAction \<Rightarrow> digest \<Rightarrow> tag list \<Rightarrow> Descriptor list \<Rightarrow> digest list \<times> Warning list
     \<Rightarrow> digest list \<times> Warning list" where
  "validateChildren s d ts [] acc = acc"
| "validateChildren s d ts (childImage # rest) (processedManifests, ws) =
     validateChildren s d ts rest
       (setAdd (digest childImage) processedManifests,
        if getIdByDigest s (digest childImage) = None then
          ws @ [if length ts > 0 then NotFoundOnImage (digest childImage) ts
                else NotFoundOnUntagged (digest childImage) d]
        else ws)"

fun validateLoop ::
  "CleanupAction \<Rightarrow> digest list \<Rightarrow> digest list \<times> Warning list \<Rightarrow> error + digest list \<times> Warning list"
  where
  "validateLoop s [] acc = Inr acc"
| "validateLoop s (d # ds) (processedManifests, ws) =
     (if d \<in> set processedManifests then validateLoop s ds (processedManifests, ws)
      else
        (case getManifestByDigest s d of
           Inl e \<Rightarrow> Inl e
         | Inr manifest \<Rightarrow>
             (case getPackageByDigest s d of
                None \<Rightarrow> Inl TypeError
              | Some ghPackage \<Rightarrow>
                  (case manifests manifest of
                     None \<Rightarrow> validateLoop s ds (processedManifests, ws)
                   | Some cs \<Rightarrow>
                       validateLoop s ds
                         (validateChildren s d (tags ghPackage) cs (processedManifests, ws))))))"

fun orphanReferrers :: "CleanupAction \<Rightarrow> tag list \<Rightarrow> Warning list" where
  "orphanReferrers s [] = []"
| "orphanReferrers s (t # ts) =
     (if startsWith t ''sha256-'' \<and>
         getIdByDigest s (replaceFirst ''sha256-'' ''sha256:'' t) = None
      then OrphanReferrerTag t # orphanReferrers s ts
      else orphanReferrers s ts)"

definition validate :: "CleanupAction \<Rightarrow> error + Warning list" where
  "validate s =
     (case validateLoop s (getDigests s) ([], []) of
        Inl e \<Rightarrow> Inl e
      | Inr (processedManifests, ws) \<Rightarrow> Inr (ws @ orphanReferrers s (tagsInUse s)))"

section \<open>Explicit tag deletion\<close>

text \<open>
  Modelled from the spec: \<^verbatim>\<open>putManifest(tag, manifestBody, isIndex)\<close> pushes a manifest
  under a tag, causing the tag to repoint: the store files the manifest under its
  content address and the registry resolves the tag to it. In the listing of the package
  service (\<open>retag\<close>) the tag leaves the version that carried it and joins the version of
  the pushed digest, which the service creates when it has none; a service that does not
  list pushes yet keeps its listing. \<^verbatim>\<open>deleteTag(tag)\<close> only invalidates a cache of the
  client, which the model does not keep.
\<close>

definition retag :: "tag \<Rightarrow> digest \<Rightarrow> int \<Rightarrow> GithubPackageRepo \<Rightarrow> GithubPackageRepo" where
  "retag t d now r =
     (let stripped = map (\<lambda>p. p\<lparr>tags := removeAll t (tags p)\<rparr>) (hosted r) in
      if d \<in> set (map name stripped) then
        r\<lparr>hosted := map (\<lambda>p. if name p = d then p\<lparr>tags := tags p @ [t]\<rparr> else p) stripped\<rparr>
      else
        r\<lparr>hosted := stripped @
               [\<lparr>pkg_id = nextId r, name = d, tags = [t], updated_at = Some now\<rparr>],
          nextId := Suc (nextId r)\<rparr>)"

definition putManifest :: "tag \<Rightarrow> Manifest \<Rightarrow> bool \<Rightarrow> CleanupAction \<Rightarrow> CleanupAction" where
  "putManifest t m isIndex s =
     (let d = digestOf (registry s) m in
      s\<lparr>registry := (registry s)
           \<lparr>manifestStore := (manifestStore (registry s))(d \<mapsto> m),
            tagStore := (tagStore (registry s))(t \<mapsto> d)\<rparr>,
        githubPackageRepo :=
          (if listsPushes (githubPackageRepo s) then retag t d (dateNow s) (githubPackageRepo s)
           else githubPackageRepo s),
        calls := calls s @ [PutManifest t m isIndex]\<rparr>)"

definition deleteTag :: "tag \<Rightarrow> CleanupAction \<Rightarrow> CleanupAction" where
  "deleteTag t s = s\<lparr>calls := calls s @ [DeleteTag t]\<rparr>"

text \<open>
  \<^verbatim>\<open>deleteByTag\<close>, lines 434-554. \<open>collectMatch\<close> is the loop of lines 440-447, which
  builds the match list from the filter set; \<open>prescan\<close> is lines 454-466;
  \<open>untagLoop\<close> is lines 470-523; \<open>standardLoop\<close> is lines 537-543.
\<close>

fun collectMatch :: "(tag \<Rightarrow> bool) \<Rightarrow> CleanupAction \<Rightarrow> digest list \<Rightarrow> error + tag list" where
  "collectMatch isTagMatch s [] = Inr []"
| "collectMatch isTagMatch s (d # ds) =
     (case getPackageByDigest s d of
        None \<Rightarrow> Inl TypeError
      | Some ghPackage \<Rightarrow>
          (case collectMatch isTagMatch s ds of
             Inl e \<Rightarrow> Inl e
           | Inr matchTags \<Rightarrow> Inr (filter isTagMatch (tags ghPackage) @ matchTags)))"

fun prescan :: "CleanupAction \<Rightarrow> tag list \<Rightarrow> tag list \<times> tag list \<Rightarrow> error + tag list \<times> tag list" where
  "prescan s [] acc = Inr acc"
| "prescan s (t # ts) (untaggingTags, standardTags) =
     (if t \<in> set (excludeTags s) then prescan s ts (untaggingTags, standardTags)
      else
        (case getTagDigest s t of
           Inl e \<Rightarrow> Inl e
         | Inr manifestDigest \<Rightarrow>
             (case getPackageByDigest s manifestDigest of
                None \<Rightarrow> Inl TypeError
              | Some ghPackage \<Rightarrow>
                  if length (tags ghPackage) > 1
                  then prescan s ts (setAdd t untaggingTags, standardTags)
                  else if length (tags ghPackage) = 1
                  then prescan s ts (untaggingTags, setAdd t standardTags)
                  else prescan s ts (untaggingTags, standardTags))))"

definition emptyManifest :: "Manifest \<Rightarrow> Manifest" where
  "emptyManifest manifest =
     (case manifests manifest of
        Some cs \<Rightarrow> manifest\<lparr>manifests := Some []\<rparr>
      | None \<Rightarrow> manifest\<lparr>layers := Some []\<rparr>)"

definition untag :: "tag \<Rightarrow> Manifest \<Rightarrow> CleanupAction \<Rightarrow> error + CleanupAction" where
  "untag t manifest s =
     (let s3 = loadPackages False
                 (deleteTag t
                    (putManifest t (emptyManifest manifest) (manifests manifest \<noteq> None) s))
      in case getTagDigest s3 t of
           Inl e \<Rightarrow> Inl e
         | Inr untaggedDigest \<Rightarrow>
             (case getIdByDigest s3 untaggedDigest of
                Some i \<Rightarrow>
                  Inr ((deletePackageVersion i untaggedDigest [t] None s3)
                         \<lparr>numberImagesDeleted := numberImagesDeleted s3 + 1\<rparr>)
              | None \<Rightarrow> Inr s3))"

fun untagLoop ::
  "tag list \<Rightarrow> tag list \<Rightarrow> CleanupAction \<Rightarrow> error + tag list \<times> CleanupAction" where
  "untagLoop [] standardTags s = Inr (standardTags, s)"
| "untagLoop (t # ts) standardTags s =
     (case getTagDigest s t of
        Inl e \<Rightarrow> Inl e
      | Inr manifestDigest \<Rightarrow>
          (case getPackageByDigest s manifestDigest of
             None \<Rightarrow> Inl TypeError
           | Some ghPackage \<Rightarrow>
               if length (tags ghPackage) = 1 then untagLoop ts (setAdd t standardTags) s
               else
                 (case getManifestByTag s t of
                    Inl e \<Rightarrow> Inl e
                  | Inr manifest \<Rightarrow>
                      (case untag t manifest s of
                         Inl e \<Rightarrow> Inl e
                       | Inr s' \<Rightarrow> untagLoop ts standardTags s'))))"

fun standardLoop :: "tag list \<Rightarrow> CleanupAction \<Rightarrow> error + CleanupAction" where
  "standardLoop [] s = Inr s"
| "standardLoop (t # ts) s =
     (case getTagDigest s t of
        Inl e \<Rightarrow> Inl e
      | Inr manifestDigest \<Rightarrow>
          standardLoop ts
            (s\<lparr>deleteSet := setAdd manifestDigest (deleteSet s),
               filterSet := setDelete manifestDigest (filterSet s)\<rparr>))"

definition processTags ::
  "(string list \<Rightarrow> tag \<Rightarrow> bool) \<Rightarrow> tag list \<Rightarrow> tag list \<Rightarrow> CleanupAction \<Rightarrow> error + CleanupAction"
  where
  "processTags wcmatch untaggingTags standardTags s =
     (if length untaggingTags > 0 then
        (case untagLoop untaggingTags standardTags s of
           Inl e \<Rightarrow> Inl e
         | Inr (standardTags', s1) \<Rightarrow>
             (case reload wcmatch s1 of
                Inl e \<Rightarrow> Inl e
              | Inr s2 \<Rightarrow>
                  if length standardTags' > 0 then standardLoop standardTags' s2 else Inr s2))
      else if length standardTags > 0 then standardLoop standardTags s
      else Inr s)"

definition deleteByTag :: "(string list \<Rightarrow> tag \<Rightarrow> bool) \<Rightarrow> CleanupAction \<Rightarrow> error + CleanupAction" where
  "deleteByTag wcmatch s =
     (case cfg_deleteTags (config s) of
        None \<Rightarrow> Inr s
      | Some pat \<Rightarrow>
          if pat = [] then Inr s
          else
            (case collectMatch (wcmatch (splitComma pat)) s (filterSet s) of
               Inl e \<Rightarrow> Inl e
             | Inr matchTags \<Rightarrow>
                 if length matchTags > 0 then
                   (case prescan s matchTags ([], []) of
                      Inl e \<Rightarrow> Inl e
                    | Inr (untaggingTags, standardTags) \<Rightarrow>
                        processTags wcmatch untaggingTags standardTags s)
                 else Inr s))"

section \<open>Keep-newest-N and delete-untagged\<close>

text \<open>
  The comparator of lines 576-578 and 615-617 is
  \<^verbatim>\<open>Date.parse(b.updated_at) - Date.parse(a.updated_at)\<close>; a date that is missing or
  does not parse makes it NaN, which \<^verbatim>\<open>sort\<close> reads as 0. When every package has a
  date the comparator is consistent and \<^verbatim>\<open>Array.prototype.sort\<close>, which is stable,
  returns the list the stable insertion below returns. When a date is missing the
  comparator is not consistent and the language leaves the order to the implementation;
  the insertion below is then one such order, and nothing proved here depends on it.
\<close>

definition dateCompare :: "GhPackage \<Rightarrow> GhPackage \<Rightarrow> int" where
  "dateCompare a b =
     (case (updated_at b, updated_at a) of (Some y, Some x) \<Rightarrow> y - x | _ \<Rightarrow> 0)"

fun insertPackage :: "GhPackage \<Rightarrow> GhPackage list \<Rightarrow> GhPackage list" where
  "insertPackage a [] = [a]"
| "insertPackage a (b # bs) =
     (if dateCompare a b \<le> 0 then a # b # bs else b # insertPackage a bs)"

definition sortPackages :: "GhPackage list \<Rightarrow> GhPackage list" where
  "sortPackages ps = foldr insertPackage ps []"

fun collectPackages ::
  "(GhPackage \<Rightarrow> bool) \<Rightarrow> CleanupAction \<Rightarrow> digest list \<Rightarrow> error + GhPackage list" where
  "collectPackages keep s [] = Inr []"
| "collectPackages keep s (d # ds) =
     (case getPackageByDigest s d of
        None \<Rightarrow> Inl TypeError
      | Some ghPackage \<Rightarrow>
          (case collectPackages keep s ds of
             Inl e \<Rightarrow> Inl e
           | Inr ps \<Rightarrow> Inr (if keep ghPackage then ghPackage # ps else ps)))"

fun movePackages :: "bool \<Rightarrow> GhPackage list \<Rightarrow> CleanupAction \<Rightarrow> error + CleanupAction" where
  "movePackages lookup [] s = Inr s"
| "movePackages lookup (deletePackage # rest) s =
     (let s' = s\<lparr>deleteSet := setAdd (name deletePackage) (deleteSet s),
                 filterSet := setDelete (name deletePackage) (filterSet s)\<rparr>
      in if lookup \<and> getPackageByDigest s' (name deletePackage) = None then Inl TypeError
         else movePackages lookup rest s')"

definition keepNtagged :: "CleanupAction \<Rightarrow> error + CleanupAction" where
  "keepNtagged s =
     (case cfg_keepNtagged (config s) of
        None \<Rightarrow> Inr s
      | Some n \<Rightarrow>
          (case collectPackages (\<lambda>p. length (tags p) > 0) s (filterSet s) of
             Inl e \<Rightarrow> Inl e
           | Inr taggedPackages \<Rightarrow>
               if length taggedPackages > n
               then movePackages True (drop n (sortPackages taggedPackages)) s
               else Inr s))"

definition keepNuntagged :: "CleanupAction \<Rightarrow> error + CleanupAction" where
  "keepNuntagged s =
     (case cfg_keepNuntagged (config s) of
        None \<Rightarrow> Inr s
      | Some n \<Rightarrow>
          (case collectPackages (\<lambda>p. length (tags p) = 0) s (filterSet s) of
             Inl e \<Rightarrow> Inl e
           | Inr unTaggedPackages \<Rightarrow>
               if length unTaggedPackages > 0 \<and> length unTaggedPackages > n
               then movePackages False (drop n (sortPackages unTaggedPackages)) s
               else Inr s))"

text \<open>\<^verbatim>\<open>deleteUntagged\<close>, lines 643-656.\<close>

fun untaggedLoop :: "digest list \<Rightarrow> CleanupAction \<Rightarrow> error + CleanupAction" where
  "untaggedLoop [] s = Inr s"
| "untaggedLoop (d # ds) s =
     (case getPackageByDigest s d of
        None \<Rightarrow> Inl TypeError
      | Some ghPackage \<Rightarrow>
          if length (tags ghPackage) = 0
          then untaggedLoop ds
                 (s\<lparr>deleteSet := setAdd d (deleteSet s), filterSet := setDelete d (filterSet s)\<rparr>)
          else untaggedLoop ds s)"

definition deleteUntagged :: "CleanupAction \<Rightarrow> error + CleanupAction" where
  "deleteUntagged s = untaggedLoop (filterSet s) s"

section \<open>The run\<close>

text \<open>
  The field initialisers of \<^verbatim>\<open>class CleanupAction\<close>, lines 24-49, and \<^verbatim>\<open>run\<close>, lines
  675-722: tag deletion, partial or ghost images, keep-N tagged, keep-N untagged or
  delete-untagged, the deletion, and the validation after a reload.
\<close>

definition newCleanupAction :: "Config \<Rightarrow> Registry \<Rightarrow> GithubPackageRepo \<Rightarrow> int \<Rightarrow> CleanupAction" where
  "newCleanupAction cfg reg repo now =
     \<lparr>config = cfg, excludeTags = [], registry = reg, githubPackageRepo = repo,
      filterSet = [], deleteSet = [], tagsInUse = [], digestUsedBy = Map.empty, deleted = [],
      numberMultiImagesDeleted = 0, numberImagesDeleted = 0, dateNow = now, calls = []\<rparr>"

definition runKeepTagged :: "CleanupAction \<Rightarrow> error + CleanupAction" where
  "runKeepTagged s = (if cfg_keepNtagged (config s) \<noteq> None then keepNtagged s else Inr s)"

definition runUntagged :: "CleanupAction \<Rightarrow> error + CleanupAction" where
  "runUntagged s =
     (if cfg_keepNuntagged (config s) \<noteq> None then keepNuntagged s
      else if cfg_deleteUntagged (config s) then deleteUntagged s
      else Inr s)"

definition runValidate ::
  "(string list \<Rightarrow> tag \<Rightarrow> bool) \<Rightarrow> CleanupAction \<Rightarrow> error + CleanupAction \<times> Warning list" where
  "runValidate wcmatch s =
     (if cfg_validate (config s) then
        (case reload wcmatch s of
           Inl e \<Rightarrow> Inl e
         | Inr s' \<Rightarrow> (case validate s' of Inl e \<Rightarrow> Inl e | Inr ws \<Rightarrow> Inr (s', ws)))
      else Inr (s, []))"

definition run ::
  "(string list \<Rightarrow> tag \<Rightarrow> bool) \<Rightarrow> CleanupAction \<Rightarrow> error + CleanupAction \<times> Warning list" where
  "run wcmatch s =
     (case (if truthy (cfg_deleteTags (config s)) then deleteByTag wcmatch s else Inr s) of
        Inl e \<Rightarrow> Inl e
      | Inr s1 \<Rightarrow>
          (case runPartialOrGhost s1 of
             Inl e \<Rightarrow> Inl e
           | Inr s2 \<Rightarrow>
               (case runKeepTagged s2 of
                  Inl e \<Rightarrow> Inl e
                | Inr s3 \<Rightarrow>
                    (case runUntagged s3 of
                       Inl e \<Rightarrow> Inl e
                     | Inr s4 \<Rightarrow>
                         (case doDelete s4 of
                            Inl e \<Rightarrow> Inl e
                          | Inr s5 \<Rightarrow> runValidate wcmatch s5)))))"

section \<open>Notions used in the statements\<close>

text \<open>
  A digest is a ghost (partial) candidate when its manifest can be fetched and
  \<open>isGhost\<close> (\<open>isPartial\<close>) holds of it; a child is unresolvable when
  \<^verbatim>\<open>getIdByDigest\<close> gives nothing for its digest.
\<close>

definition ghostDigest :: "CleanupAction \<Rightarrow> digest \<Rightarrow> bool" where
  "ghostDigest s d =
     (case getManifestByDigest s d of Inl e \<Rightarrow> False | Inr m \<Rightarrow> isGhost s m)"

definition partialDigest :: "CleanupAction \<Rightarrow> digest \<Rightarrow> bool" where
  "partialDigest s d =
     (case getManifestByDigest s d of Inl e \<Rightarrow> False | Inr m \<Rightarrow> isPartial s m)"

text \<open>The digests handed to \<^verbatim>\<open>deletePackageVersion\<close>, in call order.\<close>

fun deleteCalls :: "Call list \<Rightarrow> digest list" where
  "deleteCalls [] = []"
| "deleteCalls (DeletePackageVersion i d ts lbl # cs) = d # deleteCalls cs"
| "deleteCalls (c # cs) = deleteCalls cs"

text \<open>The manifests pushed by \<^verbatim>\<open>putManifest\<close>, in call order.\<close>

fun putCalls :: "Call list \<Rightarrow> (tag \<times> Manifest \<times> bool) list" where
  "putCalls [] = []"
| "putCalls (PutManifest t m isIndex # cs) = (t, m, isIndex) # putCalls cs"
| "putCalls (c # cs) = putCalls cs"

text \<open>The child digests an index lists; nothing for a leaf or a missing manifest.\<close>

definition childDigests :: "CleanupAction \<Rightarrow> digest \<Rightarrow> digest list" where
  "childDigests s d =
     (case getManifestByDigest s d of
        Inl e \<Rightarrow> []
      | Inr m \<Rightarrow> (case manifests m of None \<Rightarrow> [] | Some cs \<Rightarrow> map digest cs))"

text \<open>
  The digests whose referrer tag is in use and that are not deleted yet: the measure of
  the referrer recursion of \<^verbatim>\<open>deleteImage\<close>.
\<close>

definition pending :: "CleanupAction \<Rightarrow> digest set" where
  "pending s = {d. referrerTag d \<in> set (tagsInUse s) \<and> d \<notin> set (deleted s)}"

text \<open>
  What the cascade leaves alone: the configuration, the registry, the loaded listing,
  the tags and the filter and delete sets; the deleted set only grows.
\<close>

definition cascadeFrame :: "CleanupAction \<Rightarrow> CleanupAction \<Rightarrow> bool" where
  "cascadeFrame s s' =
     (config s' = config s \<and> registry s' = registry s \<and>
      loaded (githubPackageRepo s') = loaded (githubPackageRepo s) \<and>
      tagsInUse s' = tagsInUse s \<and> excludeTags s' = excludeTags s \<and>
      filterSet s' = filterSet s \<and> deleteSet s' = deleteSet s \<and>
      set (deleted s) \<subseteq> set (deleted s'))"

text \<open>
  The referrer of a digest, as lines 346-352 find it: the digest its referrer tag resolves
  to, when the tag is in use and not excluded. \<open>referred s d d'\<close> holds when \<open>d'\<close> is
  reached from \<open>d\<close> by following referrers: the referrer of \<open>d\<close>, its referrer, and so on.
\<close>

definition referrerOf :: "CleanupAction \<Rightarrow> digest \<Rightarrow> digest option" where
  "referrerOf s d =
     (if referrerActive d s then
        (case getTagDigest s (referrerTag d) of
           Inl e \<Rightarrow> None
         | Inr manifestDigest \<Rightarrow> Some manifestDigest)
      else None)"

inductive referred :: "CleanupAction \<Rightarrow> digest \<Rightarrow> digest \<Rightarrow> bool" for s where
  direct: "referrerOf s d = Some d' \<Longrightarrow> referred s d d'"
| onward: "referrerOf s d = Some d' \<Longrightarrow> referred s d' d'' \<Longrightarrow> referred s d d''"

code_pred referred .

text \<open>
  The validator's walk: the known digests it fetches, given the child digests marked so
  far; the children an index lists that the package listing does not know; and the
  child digest a warning is about.
\<close>

fun walked :: "CleanupAction \<Rightarrow> digest list \<Rightarrow> digest list \<Rightarrow> digest list" where
  "walked s [] processed = []"
| "walked s (d # ds) processed =
     (if d \<in> set processed then walked s ds processed
      else d # walked s ds (processed @ childDigests s d))"

definition missingChildren :: "CleanupAction \<Rightarrow> digest \<Rightarrow> digest list" where
  "missingChildren s d = filter (\<lambda>c. getIdByDigest s c = None) (childDigests s d)"

fun warnedChildren :: "Warning list \<Rightarrow> digest list" where
  "warnedChildren [] = []"
| "warnedChildren (NotFoundOnImage c ts # ws) = c # warnedChildren ws"
| "warnedChildren (NotFoundOnUntagged c d # ws) = c # warnedChildren ws"
| "warnedChildren (OrphanReferrerTag t # ws) = warnedChildren ws"

text \<open>
  What the three trims of the reload take out of the filter set. The child trim, at a
  known digest \<open>d\<close>: the children of its manifest, and when the referrer tag of \<open>d\<close> is in
  use and not in \<^verbatim>\<open>excludeTags\<close>, the digest the tag resolves to and the children of
  the manifest behind the tag. The exclude trim: the digests of the matching tags. The
  age trim: the digests whose package is at or after the cut-off.
\<close>

definition manifestChildren :: "error + Manifest \<Rightarrow> digest list" where
  "manifestChildren r =
     (case r of
        Inl e \<Rightarrow> []
      | Inr m \<Rightarrow> (case manifests m of None \<Rightarrow> [] | Some cs \<Rightarrow> map digest cs))"

definition referrerTargets :: "CleanupAction \<Rightarrow> digest \<Rightarrow> digest list" where
  "referrerTargets s d =
     (case getTagDigest s (referrerTag d) of
        Inl e \<Rightarrow> []
      | Inr referrerDigest \<Rightarrow>
          referrerDigest # manifestChildren (getManifestByTag s (referrerTag d)))"

definition trimTargets :: "CleanupAction \<Rightarrow> digest \<Rightarrow> digest list" where
  "trimTargets s d =
     childDigests s d @ (if referrerActive d s then referrerTargets s d else [])"

definition excludeTargets :: "(tag \<Rightarrow> bool) \<Rightarrow> CleanupAction \<Rightarrow> tag list \<Rightarrow> digest set" where
  "excludeTargets isTagMatch s ts =
     {d. d \<noteq> [] \<and> (\<exists>t\<in>set ts. isTagMatch t \<and> getDigestByTag s t = Some d)}"

definition tooNew :: "CleanupAction \<Rightarrow> int \<Rightarrow> digest \<Rightarrow> bool" where
  "tooNew s olderThan d =
     (case getPackageByDigest s d of
        None \<Rightarrow> False
      | Some ghPackage \<Rightarrow>
          (case updated_at ghPackage of
             None \<Rightarrow> False
           | Some packageDate \<Rightarrow> notOlder s olderThan packageDate))"

text \<open>The predicate the exclude trim matches tags with: nothing without a pattern.\<close>

definition excludePattern :: "(string list \<Rightarrow> tag \<Rightarrow> bool) \<Rightarrow> CleanupAction \<Rightarrow> tag \<Rightarrow> bool" where
  "excludePattern wcmatch s =
     (case cfg_excludeTags (config s) of
        None \<Rightarrow> (\<lambda>t. False)
      | Some pat \<Rightarrow> if pat \<noteq> [] then wcmatch (splitComma pat) else (\<lambda>t. False))"

text \<open>The digests the age trim takes out: none without a cut-off.\<close>

definition agePattern :: "CleanupAction \<Rightarrow> digest \<Rightarrow> bool" where
  "agePattern s d =
     (case cfg_olderThan (config s) of
        None \<Rightarrow> False
      | Some olderThan \<Rightarrow> olderThan \<noteq> 0 \<and> tooNew s olderThan d)"

text \<open>All the child trim takes out, over the known digests.\<close>

definition allTrimTargets :: "CleanupAction \<Rightarrow> digest set" where
  "allTrimTargets s = (\<Union>d\<in>set (getDigests s). set (trimTargets s d))"

text \<open>One trim after another, an error of the first ending the sequence.\<close>

definition andThen :: "error + 'a \<Rightarrow> ('a \<Rightarrow> error + 'b) \<Rightarrow> error + 'b" where
  "andThen r f = (case r of Inl e \<Rightarrow> Inl e | Inr x \<Rightarrow> f x)"

text \<open>
  The exclude trim as a step that cannot fail, and a list of trims applied one after
  another.
\<close>

definition excludeStep ::
  "(string list \<Rightarrow> tag \<Rightarrow> bool) \<Rightarrow> CleanupAction \<Rightarrow> error + CleanupAction" where
  "excludeStep wcmatch s = Inr (excludeTrim wcmatch s)"

definition inOrder ::
  "(CleanupAction \<Rightarrow> error + CleanupAction) list \<Rightarrow> CleanupAction \<Rightarrow> error + CleanupAction" where
  "inOrder trims s = foldl andThen (Inr s) trims"

text \<open>
  The states the trims are compared on. Every digest of the filter set is in the loaded
  listing, as after \<open>reloadStart\<close>. Registry and listing agree on the excluded referrer
  tags: where the referrer tag of a known digest is in use and matches the exclude
  pattern, the registry resolves it to a digest, not empty, and the listing shows the
  tag on that digest. And \<^verbatim>\<open>excludeTags\<close> holds no tag in use that the exclude pattern
  does not match: it is empty before the first reload and left by the exclude trim
  afterwards.
\<close>

definition knownSet :: "CleanupAction \<Rightarrow> bool" where
  "knownSet s = list_all (\<lambda>d. getPackageByDigest s d \<noteq> None) (filterSet s)"

definition tagsAgree :: "(string list \<Rightarrow> tag \<Rightarrow> bool) \<Rightarrow> CleanupAction \<Rightarrow> bool" where
  "tagsAgree wcmatch s =
     list_all
       (\<lambda>d. referrerTag d \<notin> set (tagsInUse s) \<or>
            \<not> excludePattern wcmatch s (referrerTag d) \<or>
            (case getTagDigest s (referrerTag d) of
               Inl e \<Rightarrow> False
             | Inr rd \<Rightarrow> rd \<noteq> [] \<and> getDigestByTag s (referrerTag d) = Some rd))
       (getDigests s)"

definition excludedMatch :: "(string list \<Rightarrow> tag \<Rightarrow> bool) \<Rightarrow> CleanupAction \<Rightarrow> bool" where
  "excludedMatch wcmatch s =
     list_all (\<lambda>t. t \<notin> set (tagsInUse s) \<or> excludePattern wcmatch s t) (excludeTags s)"

text \<open>
  What the child trim fetches at a digest: its manifest and, when its referrer tag is in
  use and not excluded, the digest and the manifest behind the tag.
\<close>

definition fetchable :: "CleanupAction \<Rightarrow> digest \<Rightarrow> bool" where
  "fetchable s d =
     (\<not> isl (getManifestByDigest s d) \<and>
      (referrerActive d s \<longrightarrow>
         \<not> isl (getTagDigest s (referrerTag d)) \<and> \<not> isl (getManifestByTag s (referrerTag d))))"

text \<open>The filter set and the delete set have no digest in common.\<close>

definition disjointSets :: "CleanupAction \<Rightarrow> bool" where
  "disjointSets s = (set (filterSet s) \<inter> set (deleteSet s) = {})"

text \<open>
  A classifier step from \<open>s\<close> to \<open>s'\<close> only moves digests: the filter set does not grow,
  the delete set does not shrink, and what the delete set gained is gone from the
  filter set.
\<close>

definition moved :: "CleanupAction \<Rightarrow> CleanupAction \<Rightarrow> bool" where
  "moved s s' =
     (set (filterSet s') \<subseteq> set (filterSet s) \<and> set (deleteSet s) \<subseteq> set (deleteSet s') \<and>
      (set (deleteSet s') - set (deleteSet s)) \<inter> set (filterSet s') = {})"

text \<open>
  The tags \<^verbatim>\<open>deleteByTag\<close> selects: the match list built from the filter set, split by
  the pre-scan into the untagging tags and the standard tags. A candidate is a tag that
  matches, is not excluded and is carried by the package of a digest of the filter set;
  \<open>carriedTags\<close> is the number of tags of the package the registry resolves a tag to.
  A tag is pushed when \<^verbatim>\<open>putManifest\<close> was called under its name, and deleted by tag when
  the digest it resolves to is in the delete set.
\<close>

definition candidateTag :: "(tag \<Rightarrow> bool) \<Rightarrow> CleanupAction \<Rightarrow> tag \<Rightarrow> bool" where
  "candidateTag isTagMatch s t =
     (isTagMatch t \<and> t \<notin> set (excludeTags s) \<and>
      (\<exists>d\<in>set (filterSet s). \<exists>p. getPackageByDigest s d = Some p \<and> t \<in> set (tags p)))"

definition carriedTags :: "CleanupAction \<Rightarrow> tag \<Rightarrow> nat option" where
  "carriedTags s t =
     (case getTagDigest s t of
        Inl e \<Rightarrow> None
      | Inr manifestDigest \<Rightarrow> map_option (\<lambda>p. length (tags p)) (getPackageByDigest s manifestDigest))"

definition pushedTags :: "CleanupAction \<Rightarrow> tag set" where
  "pushedTags s = fst ` set (putCalls (calls s))"

definition deletedByTag :: "CleanupAction \<Rightarrow> tag \<Rightarrow> bool" where
  "deletedByTag s t = (case getTagDigest s t of Inl e \<Rightarrow> False | Inr d \<Rightarrow> d \<in> set (deleteSet s))"

definition selectedTags ::
  "(tag \<Rightarrow> bool) \<Rightarrow> CleanupAction \<Rightarrow> error + tag list \<times> tag list" where
  "selectedTags isTagMatch s =
     (case collectMatch isTagMatch s (filterSet s) of
        Inl e \<Rightarrow> Inl e
      | Inr matchTags \<Rightarrow> prescan s matchTags ([], []))"

text \<open>
  The state after the push of the emptied clone under the tag, the cache invalidation
  and the reload of the listing, lines 489-505; and the state the untagging of one tag
  ends in when the package of the pushed digest is found with the given id, lines
  508-516.
\<close>

definition pushed :: "tag \<Rightarrow> Manifest \<Rightarrow> CleanupAction \<Rightarrow> CleanupAction" where
  "pushed t manifest s =
     loadPackages False
       (deleteTag t (putManifest t (emptyManifest manifest) (manifests manifest \<noteq> None) s))"

definition untagged :: "tag \<Rightarrow> Manifest \<Rightarrow> nat \<Rightarrow> CleanupAction \<Rightarrow> CleanupAction" where
  "untagged t manifest i s =
     (let s3 = loadPackages False
                 (deleteTag t
                    (putManifest t (emptyManifest manifest) (manifests manifest \<noteq> None) s))
      in (deletePackageVersion i (digestOf (registry s) (emptyManifest manifest)) [t] None s3)
           \<lparr>numberImagesDeleted := numberImagesDeleted s3 + 1\<rparr>)"

text \<open>A version of the listing once a tag has been taken off it.\<close>

definition withoutTag :: "tag \<Rightarrow> GhPackage \<Rightarrow> GhPackage" where
  "withoutTag t p = p\<lparr>tags := removeAll t (tags p)\<rparr>"

section \<open>Example data\<close>

definition noOptions :: Config where
  "noOptions =
     \<lparr>cfg_deleteTags = None, cfg_excludeTags = None, cfg_olderThan = None,
      cfg_deleteUntagged = False, cfg_deleteGhostImages = False,
      cfg_deletePartialImages = False, cfg_keepNuntagged = None, cfg_keepNtagged = None,
      cfg_validate = False\<rparr>"

definition child :: "digest \<Rightarrow> Descriptor" where
  "child d = \<lparr>digest = d, platform = None, artifactType = None\<rparr>"

definition indexOf :: "digest list \<Rightarrow> Manifest" where
  "indexOf ds = \<lparr>manifests = Some (map child ds), layers = None, body = []\<rparr>"

definition leaf :: Manifest where
  "leaf = \<lparr>manifests = None, layers = Some [\<lparr>mediaType = ''layer''\<rparr>], body = []\<rparr>"

definition version :: "nat \<Rightarrow> digest \<Rightarrow> tag list \<Rightarrow> GhPackage" where
  "version i d ts = \<lparr>pkg_id = i, name = d, tags = ts, updated_at = Some 0\<rparr>"

definition store :: "(digest \<rightharpoonup> Manifest) \<Rightarrow> (tag \<rightharpoonup> digest) \<Rightarrow> Registry" where
  "store ms ts = \<lparr>manifestStore = ms, tagStore = ts, digestOf = (\<lambda>m. ''sha256:new'')\<rparr>"

definition listing :: "GhPackage list \<Rightarrow> GithubPackageRepo" where
  "listing ps = \<lparr>loaded = ps, hosted = ps, nextId = 100, listsPushes = True\<rparr>"

text \<open>The literal matcher: a pattern list without wildcards matches its own members.\<close>

definition literalMatch :: "string list \<Rightarrow> tag \<Rightarrow> bool" where
  "literalMatch pats t = (t \<in> set pats)"

text \<open>
  An index \<^verbatim>\<open>sha256:i\<close>, tagged \<^verbatim>\<open>v1\<close>, with the children \<^verbatim>\<open>sha256:a\<close> and
  \<^verbatim>\<open>sha256:b\<close>; the argument lists the children the package listing knows.
\<close>

definition twoChildren :: "GhPackage list \<Rightarrow> CleanupAction" where
  "twoChildren known =
     (newCleanupAction (noOptions\<lparr>cfg_deleteGhostImages := True\<rparr>)
        (store [''sha256:i'' \<mapsto> indexOf [''sha256:a'', ''sha256:b'']] Map.empty)
        (listing (version 1 ''sha256:i'' [''v1''] # known)) 0)
       \<lparr>filterSet := [''sha256:i'']\<rparr>"

text \<open>An index without children, \<^verbatim>\<open>manifests: []\<close>.\<close>

definition noChildren :: CleanupAction where
  "noChildren =
     (newCleanupAction noOptions
        (store [''sha256:i'' \<mapsto> indexOf []] Map.empty)
        (listing [version 1 ''sha256:i'' [''v1'']]) 0)
       \<lparr>filterSet := [''sha256:i'']\<rparr>"

text \<open>
  Two index manifests \<^verbatim>\<open>sha256:p1\<close> and \<^verbatim>\<open>sha256:p2\<close> that share the child
  \<^verbatim>\<open>sha256:c\<close>. In \<open>cascadeExample\<close> the leaf \<^verbatim>\<open>sha256:r\<close> is the referrer of the first;
  \<open>cascadeFirst\<close> is the state after the deletion of the first parent, \<open>cascadeDone\<close>
  the state after the deletion of all. In \<open>referrerIsParent\<close> the referrer tag of the
  first parent points at the second. In \<open>nestedIndex\<close> the first parent also lists the
  second as a child.
\<close>

definition cascadeExample :: CleanupAction where
  "cascadeExample =
     (newCleanupAction noOptions
        (store [''sha256:p1'' \<mapsto> indexOf [''sha256:c''], ''sha256:p2'' \<mapsto> indexOf [''sha256:c''],
                ''sha256:c'' \<mapsto> leaf, ''sha256:r'' \<mapsto> leaf]
               [''sha256-p1'' \<mapsto> ''sha256:r''])
        (listing [version 1 ''sha256:p1'' [''v1''], version 2 ''sha256:p2'' [''v2''],
                  version 3 ''sha256:c'' [], version 4 ''sha256:r'' [''sha256-p1'']]) 0)
       \<lparr>tagsInUse := [''v1'', ''v2'', ''sha256-p1''],
        digestUsedBy := [''sha256:c'' \<mapsto> [''sha256:p1'', ''sha256:p2'']],
        deleteSet := [''sha256:p1'', ''sha256:p2'', ''sha256:r'']\<rparr>"

definition cascadeDone :: CleanupAction where
  "cascadeDone =
     cascadeExample
       \<lparr>githubPackageRepo := (listing [version 1 ''sha256:p1'' [''v1''], version 2 ''sha256:p2'' [''v2''],
                  version 3 ''sha256:c'' [], version 4 ''sha256:r'' [''sha256-p1'']])\<lparr>hosted := []\<rparr>,
        digestUsedBy := Map.empty,
        deleted := [''sha256:p1'', ''sha256:r'', ''sha256:p2'', ''sha256:c''],
        numberMultiImagesDeleted := 2, numberImagesDeleted := 4,
        calls := [DeletePackageVersion 1 ''sha256:p1'' [''v1''] None,
                  DeletePackageVersion 4 ''sha256:r'' [''sha256-p1''] None,
                  DeletePackageVersion 2 ''sha256:p2'' [''v2''] None,
                  DeletePackageVersion 3 ''sha256:c'' [] (Some [])]\<rparr>"

definition cascadeFirst :: CleanupAction where
  "cascadeFirst =
     cascadeExample
       \<lparr>githubPackageRepo :=
          (githubPackageRepo cascadeExample)
            \<lparr>hosted := [version 2 ''sha256:p2'' [''v2''], version 3 ''sha256:c'' []]\<rparr>,
        digestUsedBy := [''sha256:c'' \<mapsto> [''sha256:p2'']],
        deleted := [''sha256:p1'', ''sha256:r''],
        numberMultiImagesDeleted := 1, numberImagesDeleted := 2,
        calls := [DeletePackageVersion 1 ''sha256:p1'' [''v1''] None,
                  DeletePackageVersion 4 ''sha256:r'' [''sha256-p1''] None]\<rparr>"

definition referrerIsParent :: CleanupAction where
  "referrerIsParent =
     (newCleanupAction noOptions
        (store [''sha256:p1'' \<mapsto> indexOf [''sha256:c''], ''sha256:p2'' \<mapsto> indexOf [''sha256:c''],
                ''sha256:c'' \<mapsto> leaf] [''sha256-p1'' \<mapsto> ''sha256:p2''])
        (listing [version 1 ''sha256:p1'' [''v1''], version 2 ''sha256:p2'' [''sha256-p1''],
                  version 3 ''sha256:c'' []]) 0)
       \<lparr>tagsInUse := [''v1'', ''sha256-p1''],
        digestUsedBy := [''sha256:c'' \<mapsto> [''sha256:p1'', ''sha256:p2'']]\<rparr>"

definition nestedIndex :: CleanupAction where
  "nestedIndex =
     (newCleanupAction noOptions
        (store [''sha256:p1'' \<mapsto> indexOf [''sha256:c'', ''sha256:p2''],
                ''sha256:p2'' \<mapsto> indexOf [''sha256:c''], ''sha256:c'' \<mapsto> leaf] Map.empty)
        (listing [version 1 ''sha256:p1'' [''v1''], version 2 ''sha256:p2'' [],
                  version 3 ''sha256:c'' []]) 0)
       \<lparr>tagsInUse := [''v1''],
        digestUsedBy := [''sha256:p2'' \<mapsto> [''sha256:p1''],
                         ''sha256:c'' \<mapsto> [''sha256:p1'', ''sha256:p2'']]\<rparr>"

text \<open>
  Two tagged index manifests that both list \<^verbatim>\<open>sha256:m\<close>, which the package listing
  does not know.
\<close>

definition twoIndexes :: CleanupAction where
  "twoIndexes =
     (newCleanupAction noOptions
        (store [''sha256:i1'' \<mapsto> indexOf [''sha256:m''], ''sha256:i2'' \<mapsto> indexOf [''sha256:m'']]
               Map.empty)
        (listing [version 1 ''sha256:i1'' [''v1''], version 2 ''sha256:i2'' [''v2'']]) 0)
       \<lparr>tagsInUse := [''v1'', ''v2'']\<rparr>"

text \<open>
  An index \<^verbatim>\<open>sha256:p\<close>, tagged \<^verbatim>\<open>v1\<close>, with the child \<^verbatim>\<open>sha256:c\<close> and the referrer
  tag \<^verbatim>\<open>sha256-p\<close> in use; the leaves \<^verbatim>\<open>sha256:r\<close>, \<^verbatim>\<open>sha256:x\<close> and \<^verbatim>\<open>sha256:n\<close>. The
  exclude pattern is \<^verbatim>\<open>sha256-p\<close>; older-than is 100 and the clock stands at 500, so
  that \<^verbatim>\<open>sha256:n\<close>, updated at 400, is too recent. The listing shows the referrer tag
  on \<^verbatim>\<open>sha256:r\<close>; the argument is the digest the registry resolves the tag to.
  \<open>trimFresh\<close> is the action before the reload, \<open>trimStart\<close> the state \<^verbatim>\<open>reload\<close> has
  when it comes to its trims: all digests in the filter set, no excluded tag yet.
\<close>

definition trimFresh :: "digest \<Rightarrow> CleanupAction" where
  "trimFresh resolved =
     newCleanupAction
        (noOptions\<lparr>cfg_excludeTags := Some ''sha256-p'', cfg_olderThan := Some 100\<rparr>)
        (store [''sha256:p'' \<mapsto> indexOf [''sha256:c''], ''sha256:c'' \<mapsto> leaf,
                ''sha256:r'' \<mapsto> leaf, ''sha256:x'' \<mapsto> leaf, ''sha256:n'' \<mapsto> leaf]
               [''v1'' \<mapsto> ''sha256:p'', ''sha256-p'' \<mapsto> resolved])
        (listing [version 1 ''sha256:p'' [''v1''], version 2 ''sha256:c'' [],
                  version 3 ''sha256:r'' [''sha256-p''], version 4 ''sha256:x'' [],
                  (version 5 ''sha256:n'' [])\<lparr>updated_at := Some 400\<rparr>]) 500"

definition trimStart :: "digest \<Rightarrow> CleanupAction" where
  "trimStart resolved =
     (trimFresh resolved)
       \<lparr>filterSet := [''sha256:p'', ''sha256:c'', ''sha256:r'', ''sha256:x'', ''sha256:n''],
        tagsInUse := [''v1'', ''sha256-p''],
        digestUsedBy := [''sha256:c'' \<mapsto> [''sha256:p'']],
        calls := [LoadPackages True]\<rparr>"

text \<open>
  Two tagged leaf images, the second newer, and an untagged one; keep-n-tagged is 1 and
  delete-untagged is on.
\<close>

definition runExample :: CleanupAction where
  "runExample =
     (newCleanupAction (noOptions\<lparr>cfg_keepNtagged := Some 1, cfg_deleteUntagged := True\<rparr>)
        (store [''sha256:t1'' \<mapsto> leaf, ''sha256:t2'' \<mapsto> leaf, ''sha256:u'' \<mapsto> leaf] Map.empty)
        (listing [(version 1 ''sha256:t1'' [''v1''])\<lparr>updated_at := Some 1\<rparr>,
                  (version 2 ''sha256:t2'' [''v2''])\<lparr>updated_at := Some 2\<rparr>,
                  version 3 ''sha256:u'' []]) 5)
       \<lparr>filterSet := [''sha256:t1'', ''sha256:t2'', ''sha256:u''],
        tagsInUse := [''v1'', ''v2'']\<rparr>"

definition runExampleDone :: CleanupAction where
  "runExampleDone =
     runExample
       \<lparr>githubPackageRepo :=
          (githubPackageRepo runExample)
            \<lparr>hosted := [(version 2 ''sha256:t2'' [''v2''])\<lparr>updated_at := Some 2\<rparr>]\<rparr>,
        filterSet := [''sha256:t2''],
        deleteSet := [''sha256:t1'', ''sha256:u''],
        deleted := [''sha256:t1'', ''sha256:u''],
        numberImagesDeleted := 2,
        calls := [DeletePackageVersion 1 ''sha256:t1'' [''v1''] None,
                  DeletePackageVersion 3 ''sha256:u'' [] None]\<rparr>"

text \<open>
  One image tagged \<^verbatim>\<open>v1\<close>, updated at time 0; delete-tags is \<^verbatim>\<open>v1\<close>. In \<open>recentTagged\<close>
  the clock stands at 500 and older-than is 1000, so the image is too recent.
\<close>

definition taggedFresh :: "int option \<Rightarrow> CleanupAction" where
  "taggedFresh cutoff =
     newCleanupAction (noOptions\<lparr>cfg_deleteTags := Some ''v1'', cfg_olderThan := cutoff\<rparr>)
       (store [''sha256:d'' \<mapsto> leaf] [''v1'' \<mapsto> ''sha256:d''])
       (listing [version 1 ''sha256:d'' [''v1'']]) 500"

definition recentTagged :: CleanupAction where
  "recentTagged =
     (taggedFresh (Some 1000))\<lparr>tagsInUse := [''v1''], calls := [LoadPackages True]\<rparr>"

text \<open>
  An index \<^verbatim>\<open>sha256:d\<close> with the tags \<^verbatim>\<open>v1\<close> and \<^verbatim>\<open>v2\<close> and the known child
  \<^verbatim>\<open>sha256:a\<close>, after the first reload; delete-tags is \<^verbatim>\<open>v1\<close>. \<open>untagDone\<close> is the state
  after \<^verbatim>\<open>deleteByTag\<close>.
\<close>

definition twoTags :: CleanupAction where
  "twoTags =
     (newCleanupAction (noOptions\<lparr>cfg_deleteTags := Some ''v1''\<rparr>)
        (store [''sha256:d'' \<mapsto> indexOf [''sha256:a''], ''sha256:a'' \<mapsto> leaf]
               [''v1'' \<mapsto> ''sha256:d'', ''v2'' \<mapsto> ''sha256:d''])
        (listing [version 1 ''sha256:d'' [''v1'', ''v2''], version 2 ''sha256:a'' []]) 7)
       \<lparr>filterSet := [''sha256:d''], tagsInUse := [''v1'', ''v2''],
        digestUsedBy := [''sha256:a'' \<mapsto> [''sha256:d'']],
        calls := [LoadPackages True]\<rparr>"

definition untagDone :: CleanupAction where
  "untagDone =
     twoTags
       \<lparr>registry :=
          (registry twoTags)
            \<lparr>manifestStore := (manifestStore (registry twoTags))(''sha256:new'' \<mapsto> indexOf []),
             tagStore := (tagStore (registry twoTags))(''v1'' \<mapsto> ''sha256:new'')\<rparr>,
        githubPackageRepo :=
          \<lparr>loaded = [version 1 ''sha256:d'' [''v2''], version 2 ''sha256:a'' []],
           hosted = [version 1 ''sha256:d'' [''v2''], version 2 ''sha256:a'' []],
           nextId = 101, listsPushes = True\<rparr>,
        tagsInUse := [''v2''],
        numberImagesDeleted := 1,
        calls := [LoadPackages True, PutManifest ''v1'' (indexOf []) True, DeleteTag ''v1'',
                  LoadPackages False, DeletePackageVersion 100 ''sha256:new'' [''v1''] None,
                  LoadPackages True]\<rparr>"

text \<open>
  The same action against a package service that does not list the push yet, and the
  state after the untagging of \<^verbatim>\<open>v1\<close>.
\<close>

definition twoTagsLagging :: CleanupAction where
  "twoTagsLagging =
     twoTags\<lparr>githubPackageRepo := (githubPackageRepo twoTags)\<lparr>listsPushes := False\<rparr>\<rparr>"

definition pushedNotListed :: CleanupAction where
  "pushedNotListed =
     twoTagsLagging
       \<lparr>registry :=
          (registry twoTags)
            \<lparr>manifestStore := (manifestStore (registry twoTags))(''sha256:new'' \<mapsto> indexOf []),
             tagStore := (tagStore (registry twoTags))(''v1'' \<mapsto> ''sha256:new'')\<rparr>,
        calls := [LoadPackages True, PutManifest ''v1'' (indexOf []) True, DeleteTag ''v1'',
                  LoadPackages False]\<rparr>"

text \<open>
  The action of \<open>twoTags\<close> with delete-tags \<^verbatim>\<open>v1,v2\<close>, and the state after
  \<^verbatim>\<open>deleteByTag\<close>: \<^verbatim>\<open>v1\<close> is untagged, and \<^verbatim>\<open>v2\<close>, then the only tag left, is a
  standard deletion.
\<close>

definition bothTags :: CleanupAction where
  "bothTags = twoTags\<lparr>config := noOptions\<lparr>cfg_deleteTags := Some ''v1,v2''\<rparr>\<rparr>"

definition bothTagsDone :: CleanupAction where
  "bothTagsDone =
     untagDone\<lparr>config := noOptions\<lparr>cfg_deleteTags := Some ''v1,v2''\<rparr>,
               deleteSet := [''sha256:d''], filterSet := []\<rparr>"

text \<open>
  An index \<^verbatim>\<open>sha256:e\<close> whose child list is empty already, with the tags \<^verbatim>\<open>v1\<close> and
  \<^verbatim>\<open>v2\<close>: the emptied clone is the manifest itself and has its content address.
\<close>

definition emptyTagged :: CleanupAction where
  "emptyTagged =
     (newCleanupAction (noOptions\<lparr>cfg_deleteTags := Some ''v1''\<rparr>)
        ((store [''sha256:e'' \<mapsto> indexOf []] [''v1'' \<mapsto> ''sha256:e'', ''v2'' \<mapsto> ''sha256:e''])
           \<lparr>digestOf := (\<lambda>m. if m = indexOf [] then ''sha256:e'' else ''sha256:new'')\<rparr>)
        (listing [version 1 ''sha256:e'' [''v1'', ''v2'']]) 7)
       \<lparr>filterSet := [''sha256:e''], tagsInUse := [''v1'', ''v2''],
        calls := [LoadPackages True]\<rparr>"

section \<open>Facts about the set operations and the classifiers\<close>

lemmas example_defs =
  newCleanupAction_def noOptions_def child_def indexOf_def leaf_def version_def store_def
  listing_def literalMatch_def

lemmas read_defs =
  getManifestByDigest_def getTagDigest_def getManifestByTag_def getDigests_def getTags_def
  getPackageByDigest_def getDigestByTag_def getIdByDigest_def

lemmas set_defs = setAdd_def setDelete_def moveToDelete_def

lemmas classify_defs =
  isGhost_def isPartial_def deleteGhostImages_def deletePartialImages_def runPartialOrGhost_def

lemmas load_defs = loadDigestUsedByMap_def childDigests_def

lemmas reload_defs =
  reload_def reloadStart_def loadPackages_def loadDigestUsedByMap_def trimChildren_def
  trimManifest_def excludeTrim_def ageTrim_def splitComma_def notOlder_def validDate_def
  referrerActive_def referrerTag_def

lemmas keep_defs =
  keepNtagged_def keepNuntagged_def deleteUntagged_def sortPackages_def dateCompare_def
  runKeepTagged_def runUntagged_def runValidate_def run_def truthy_def deleteByTag_def

lemmas tag_defs = deleteByTag_def processTags_def splitComma_def

lemma set_setAdd [simp]: "set (setAdd x xs) = insert x (set xs)"
  by (auto simp: setAdd_def)

lemma set_setDelete [simp]: "set (setDelete x xs) = set xs - {x}"
  by (auto simp: setDelete_def)

lemma moveToDelete_reads [simp]:
  "getManifestByDigest (moveToDelete d s) = getManifestByDigest s"
  "getPackageByDigest (moveToDelete d s) = getPackageByDigest s"
  "getIdByDigest (moveToDelete d s) = getIdByDigest s"
  by (auto simp: fun_eq_iff moveToDelete_def getManifestByDigest_def getPackageByDigest_def getIdByDigest_def)

lemma countMissing_cong: "getIdByDigest s = getIdByDigest s' \<Longrightarrow> countMissing s cs = countMissing s' cs"
  by (induction cs) auto

lemma someMissing_cong: "getIdByDigest s = getIdByDigest s' \<Longrightarrow> someMissing s cs = someMissing s' cs"
  by (induction cs) auto

lemma moveToDelete_class [simp]:
  "isGhost (moveToDelete d s) m = isGhost s m"
  "isPartial (moveToDelete d s) m = isPartial s m"
  using countMissing_cong[of "moveToDelete d s" s] someMissing_cong[of "moveToDelete d s" s]
  by (auto simp: isGhost_def isPartial_def split: option.splits)

lemma moveToDelete_digest [simp]:
  "ghostDigest (moveToDelete d s) = ghostDigest s"
  "partialDigest (moveToDelete d s) = partialDigest s"
  by (simp_all add: ghostDigest_def partialDigest_def fun_eq_iff split: sum.splits)

lemma moveToDelete_sets [simp]:
  "set (filterSet (moveToDelete d s)) = set (filterSet s) - {d}"
  "set (deleteSet (moveToDelete d s)) = insert d (set (deleteSet s))"
  by (simp_all add: moveToDelete_def)

lemma ghostLoop_sets:
  "ghostLoop ds s = Inr s' \<Longrightarrow>
     set (filterSet s') = set (filterSet s) - {d \<in> set ds. ghostDigest s d} \<and>
     set (deleteSet s') = set (deleteSet s) \<union> {d \<in> set ds. ghostDigest s d}"
proof (induction ds arbitrary: s)
  case Nil
  then show ?case by simp
next
  case (Cons d ds)
  from Cons.prems obtain m where m: "getManifestByDigest s d = Inr m"
    by (auto split: sum.splits)
  show ?case
  proof (cases "isGhost s m")
    case True
    with Cons.prems m have "ghostLoop ds (moveToDelete d s) = Inr s'"
      by (auto split: option.splits)
    from Cons.IH[OF this] True m show ?thesis
      by (auto simp: ghostDigest_def)
  next
    case False
    with Cons.prems m have "ghostLoop ds s = Inr s'" by simp
    from Cons.IH[OF this] False m show ?thesis
      by (auto simp: ghostDigest_def)
  qed
qed

lemma partialLoop_sets:
  "partialLoop ds s = Inr s' \<Longrightarrow>
     set (filterSet s') = set (filterSet s) - {d \<in> set ds. partialDigest s d} \<and>
     set (deleteSet s') = set (deleteSet s) \<union> {d \<in> set ds. partialDigest s d}"
proof (induction ds arbitrary: s)
  case Nil
  then show ?case by simp
next
  case (Cons d ds)
  from Cons.prems obtain m where m: "getManifestByDigest s d = Inr m"
    by (auto split: sum.splits)
  show ?case
  proof (cases "isPartial s m")
    case True
    with Cons.prems m have "partialLoop ds (moveToDelete d s) = Inr s'"
      by (auto split: option.splits)
    from Cons.IH[OF this] True m show ?thesis
      by (auto simp: partialDigest_def)
  next
    case False
    with Cons.prems m have "partialLoop ds s = Inr s'" by simp
    from Cons.IH[OF this] False m show ?thesis
      by (auto simp: partialDigest_def)
  qed
qed

lemma countMissing_le: "countMissing s cs \<le> length cs"
  by (induction cs) auto

lemma countMissing_all:
  "countMissing s cs = length cs \<longleftrightarrow> (\<forall>c\<in>set cs. getIdByDigest s (digest c) = None)"
proof (induction cs)
  case Nil
  then show ?case by simp
next
  case (Cons c cs)
  from countMissing_le[of s cs] have "countMissing s cs \<noteq> Suc (length cs)" by simp
  with Cons show ?case by auto
qed

lemma someMissing_iff: "someMissing s cs \<longleftrightarrow> (\<exists>c\<in>set cs. getIdByDigest s (digest c) = None)"
  by (induction cs) auto

section \<open>Ghost and partial classification\<close>

text \<open>
  Claim C2. An index manifest in the filter set with the child list \<open>[a, b]\<close>: when
  neither child resolves to a known package digest, ghost detection and partial
  detection each move the digest from the filter set to the delete set, and so does the
  classifier that \<^verbatim>\<open>run\<close> picks when one of the two options is on; when exactly one
  child is known, partial detection moves the digest and ghost detection leaves it where
  it is.
\<close>

theorem C2_two_children:
  assumes "d \<in> set (filterSet s)"
    and "getManifestByDigest s d = Inr m"
    and "manifests m = Some [a, b]"
    and "deleteGhostImages s = Inr sg"
    and "deletePartialImages s = Inr sp"
    and "runPartialOrGhost s = Inr sr"
  shows "(getIdByDigest s (digest a) = None \<and> getIdByDigest s (digest b) = None \<longrightarrow>
           d \<notin> set (filterSet sg) \<and> d \<in> set (deleteSet sg) \<and>
           d \<notin> set (filterSet sp) \<and> d \<in> set (deleteSet sp) \<and>
           (cfg_deleteGhostImages (config s) \<or> cfg_deletePartialImages (config s) \<longrightarrow>
              d \<notin> set (filterSet sr) \<and> d \<in> set (deleteSet sr))) \<and>
         ((getIdByDigest s (digest a) = None) \<noteq> (getIdByDigest s (digest b) = None) \<longrightarrow>
           d \<notin> set (filterSet sp) \<and> d \<in> set (deleteSet sp) \<and>
           d \<in> set (filterSet sg) \<and> (d \<in> set (deleteSet sg) \<longleftrightarrow> d \<in> set (deleteSet s)))"
proof -
  have g: "ghostDigest s d \<longleftrightarrow>
             getIdByDigest s (digest a) = None \<and> getIdByDigest s (digest b) = None"
    using assms(2,3) by (simp add: ghostDigest_def isGhost_def countMissing_all)
  have p: "partialDigest s d \<longleftrightarrow>
             getIdByDigest s (digest a) = None \<or> getIdByDigest s (digest b) = None"
    using assms(2,3) by (simp add: partialDigest_def isPartial_def someMissing_iff)
  note G = ghostLoop_sets[OF assms(4)[unfolded deleteGhostImages_def]]
  note P = partialLoop_sets[OF assms(5)[unfolded deletePartialImages_def]]
  have r: "cfg_deletePartialImages (config s) \<Longrightarrow> sr = sp"
          "\<not> cfg_deletePartialImages (config s) \<Longrightarrow> cfg_deleteGhostImages (config s) \<Longrightarrow> sr = sg"
    using assms(4,5,6) by (simp_all add: runPartialOrGhost_def)
  show ?thesis
  proof (intro conjI impI)
    assume n: "getIdByDigest s (digest a) = None \<and> getIdByDigest s (digest b) = None"
    with g p have gd: "ghostDigest s d" and pd: "partialDigest s d" by simp_all
    from G gd assms(1) show "d \<notin> set (filterSet sg)" "d \<in> set (deleteSet sg)" by auto
    from P pd assms(1) show "d \<notin> set (filterSet sp)" "d \<in> set (deleteSet sp)" by auto
    assume "cfg_deleteGhostImages (config s) \<or> cfg_deletePartialImages (config s)"
    with r have "sr = sp \<or> sr = sg" by blast
    with G P gd pd assms(1) show "d \<notin> set (filterSet sr)" "d \<in> set (deleteSet sr)" by auto
  next
    assume n: "(getIdByDigest s (digest a) = None) \<noteq> (getIdByDigest s (digest b) = None)"
    with g p have gd: "\<not> ghostDigest s d" and pd: "partialDigest s d" by auto
    from P pd assms(1) show "d \<notin> set (filterSet sp)" "d \<in> set (deleteSet sp)" by auto
    from G gd assms(1) show "d \<in> set (filterSet sg)"
      "(d \<in> set (deleteSet sg)) = (d \<in> set (deleteSet s))" by auto
  qed
qed


theorem C2_two_children_witness:
  "getIdByDigest (twoChildren []) ''sha256:a'' = None \<and>
   getIdByDigest (twoChildren []) ''sha256:b'' = None \<and>
   deleteGhostImages (twoChildren []) = Inr (moveToDelete ''sha256:i'' (twoChildren [])) \<and>
   deletePartialImages (twoChildren []) = Inr (moveToDelete ''sha256:i'' (twoChildren [])) \<and>
   runPartialOrGhost (twoChildren []) = Inr (moveToDelete ''sha256:i'' (twoChildren [])) \<and>
   ''sha256:i'' \<in> set (deleteSet (moveToDelete ''sha256:i'' (twoChildren []))) \<and>
   ''sha256:i'' \<notin> set (filterSet (moveToDelete ''sha256:i'' (twoChildren []))) \<and>
   getIdByDigest (twoChildren [version 2 ''sha256:a'' []]) ''sha256:a'' = Some 2 \<and>
   getIdByDigest (twoChildren [version 2 ''sha256:a'' []]) ''sha256:b'' = None \<and>
   deleteGhostImages (twoChildren [version 2 ''sha256:a'' []]) =
     Inr (twoChildren [version 2 ''sha256:a'' []]) \<and>
   deletePartialImages (twoChildren [version 2 ''sha256:a'' []]) =
     Inr (moveToDelete ''sha256:i'' (twoChildren [version 2 ''sha256:a'' []])) \<and>
   ''sha256:i'' \<in> set (filterSet (twoChildren [version 2 ''sha256:a'' []])) \<and>
   ''sha256:i'' \<notin> set (deleteSet (twoChildren [version 2 ''sha256:a'' []]))"
proof -
  let ?s = "twoChildren []" and ?t = "twoChildren [version 2 ''sha256:a'' []]"
  have f: "''sha256:i'' \<in> set (filterSet ?s)" "''sha256:i'' \<in> set (filterSet ?t)"
    by (simp_all add: twoChildren_def example_defs)
  have m: "getManifestByDigest ?s ''sha256:i'' = Inr (indexOf [''sha256:a'', ''sha256:b''])"
    "getManifestByDigest ?t ''sha256:i'' = Inr (indexOf [''sha256:a'', ''sha256:b''])"
    by (simp_all add: twoChildren_def example_defs read_defs)
  have c: "manifests (indexOf [''sha256:a'', ''sha256:b'']) = Some [child ''sha256:a'', child ''sha256:b'']"
    by (simp add: indexOf_def)
  have ids: "getIdByDigest ?s ''sha256:a'' = None" "getIdByDigest ?s ''sha256:b'' = None"
    "getIdByDigest ?t ''sha256:a'' = Some 2" "getIdByDigest ?t ''sha256:b'' = None"
    by (simp_all add: twoChildren_def example_defs read_defs)
  have g: "deleteGhostImages ?s = Inr (moveToDelete ''sha256:i'' ?s)"
    "deleteGhostImages ?t = Inr ?t"
    by (simp_all add: twoChildren_def example_defs read_defs set_defs classify_defs)
  have p: "deletePartialImages ?s = Inr (moveToDelete ''sha256:i'' ?s)"
    "deletePartialImages ?t = Inr (moveToDelete ''sha256:i'' ?t)"
    by (simp_all add: twoChildren_def example_defs read_defs set_defs classify_defs)
  have r: "runPartialOrGhost ?s = Inr (moveToDelete ''sha256:i'' ?s)"
    "runPartialOrGhost ?t = Inr ?t"
    by (simp_all add: twoChildren_def example_defs read_defs set_defs classify_defs)
  have d: "digest (child ''sha256:a'') = ''sha256:a''" "digest (child ''sha256:b'') = ''sha256:b''"
    by (simp_all add: child_def)
  have n: "''sha256:i'' \<notin> set (deleteSet ?t)"
    by (simp add: twoChildren_def example_defs)
  from C2_two_children[OF f(1) m(1) c g(1) p(1) r(1)] C2_two_children[OF f(2) m(2) c g(2) p(2) r(2)]
    ids f g p r n
  show ?thesis by (simp add: d)
qed

text \<open>
  Claim C3. The claim says that partial detection moves a digest exactly when some but
  not all of its children are unresolvable. At the index \<^verbatim>\<open>sha256:i\<close> whose two children
  are both unknown, \<^verbatim>\<open>deletePartialImages\<close> moves the digest to the delete set: the loop
  of lines 407-413 stops at the first unknown child and never looks at the others.
\<close>

theorem C3_all_missing_is_moved:
  "getManifestByDigest (twoChildren []) ''sha256:i'' = Inr (indexOf [''sha256:a'', ''sha256:b'']) \<and>
   getIdByDigest (twoChildren []) ''sha256:a'' = None \<and>
   getIdByDigest (twoChildren []) ''sha256:b'' = None \<and>
   filterSet (twoChildren []) = [''sha256:i''] \<and>
   deleteSet (twoChildren []) = [] \<and>
   deletePartialImages (twoChildren []) =
     Inr ((twoChildren [])\<lparr>filterSet := [], deleteSet := [''sha256:i'']\<rparr>)"
  by (simp add: twoChildren_def example_defs read_defs set_defs classify_defs)


text \<open>
  Claim C10. An index manifest in the filter set whose child list is empty is a ghost
  image (no child is known, of none) and is moved to the delete set by
  \<^verbatim>\<open>deleteGhostImages\<close>; it is not partial, and \<^verbatim>\<open>deletePartialImages\<close> leaves it in the
  filter set.
\<close>

theorem C10_empty_index:
  assumes "d \<in> set (filterSet s)"
    and "getManifestByDigest s d = Inr m"
    and "manifests m = Some []"
    and "deleteGhostImages s = Inr sg"
    and "deletePartialImages s = Inr sp"
  shows "isGhost s m \<and> \<not> isPartial s m \<and>
         d \<notin> set (filterSet sg) \<and> d \<in> set (deleteSet sg) \<and>
         d \<in> set (filterSet sp) \<and> (d \<in> set (deleteSet sp) \<longleftrightarrow> d \<in> set (deleteSet s))"
proof -
  have g: "isGhost s m" and p: "\<not> isPartial s m"
    using assms(3) by (simp_all add: isGhost_def isPartial_def)
  with assms(2) have gd: "ghostDigest s d" and pd: "\<not> partialDigest s d"
    by (simp_all add: ghostDigest_def partialDigest_def)
  from ghostLoop_sets[OF assms(4)[unfolded deleteGhostImages_def]]
       partialLoop_sets[OF assms(5)[unfolded deletePartialImages_def]] gd pd g p assms(1)
  show ?thesis by auto
qed

theorem C10_empty_index_witness:
  "''sha256:i'' \<in> set (filterSet noChildren) \<and>
   getManifestByDigest noChildren ''sha256:i'' = Inr (indexOf []) \<and>
   manifests (indexOf []) = Some [] \<and>
   deleteGhostImages noChildren = Inr (moveToDelete ''sha256:i'' noChildren) \<and>
   deletePartialImages noChildren = Inr noChildren \<and>
   ''sha256:i'' \<notin> set (filterSet (moveToDelete ''sha256:i'' noChildren)) \<and>
   ''sha256:i'' \<in> set (deleteSet (moveToDelete ''sha256:i'' noChildren)) \<and>
   ''sha256:i'' \<notin> set (deleteSet noChildren)"
proof -
  have f: "''sha256:i'' \<in> set (filterSet noChildren)"
    by (simp add: noChildren_def example_defs)
  have m: "getManifestByDigest noChildren ''sha256:i'' = Inr (indexOf [])"
    by (simp add: noChildren_def example_defs read_defs)
  have c: "manifests (indexOf []) = Some []" by (simp add: indexOf_def)
  have g: "deleteGhostImages noChildren = Inr (moveToDelete ''sha256:i'' noChildren)"
    by (simp add: noChildren_def example_defs read_defs set_defs classify_defs)
  have p: "deletePartialImages noChildren = Inr noChildren"
    by (simp add: noChildren_def example_defs read_defs set_defs classify_defs)
  have n: "''sha256:i'' \<notin> set (deleteSet noChildren)"
    by (simp add: noChildren_def example_defs)
  from C10_empty_index[OF f m c g p] f m c g p n show ?thesis by simp
qed

section \<open>The cascading deletion: termination, idempotence, reference counting\<close>

lemma replaceFirst_length:
  "length pat = length rep \<Longrightarrow> length (replaceFirst pat rep s) = length s"
  by (induction s) auto

lemma finite_referrer: "finite {d. referrerTag d \<in> set T}"
proof -
  have "{d. referrerTag d \<in> set T}
          \<subseteq> (\<Union>n\<in>length ` set T. {d::string. set d \<subseteq> UNIV \<and> length d = n})"
    by (auto simp: referrerTag_def replaceFirst_length)
  moreover have "finite (\<Union>n\<in>length ` set T. {d::string. set d \<subseteq> UNIV \<and> length d = n})"
    by (intro finite_UN_I finite_imageI finite_lists_length_eq) auto
  ultimately show ?thesis by (rule finite_subset)
qed

lemma finite_pending: "finite (pending s)"
  unfolding pending_def by (rule finite_subset[OF _ finite_referrer[of "tagsInUse s"]]) auto

lemma cascadeFrame_refl [simp]: "cascadeFrame s s"
  by (simp add: cascadeFrame_def)

lemma cascadeFrame_trans: "cascadeFrame s t \<Longrightarrow> cascadeFrame t u \<Longrightarrow> cascadeFrame s u"
  by (auto simp: cascadeFrame_def)

lemma cascadeFrame_reads:
  assumes "cascadeFrame s s'"
  shows "getManifestByDigest s' = getManifestByDigest s"
    and "getTagDigest s' = getTagDigest s"
    and "getPackageByDigest s' = getPackageByDigest s"
    and "getIdByDigest s' = getIdByDigest s"
    and "referrerActive d s' = referrerActive d s"
  using assms
  by (auto simp: cascadeFrame_def fun_eq_iff read_defs referrerActive_def)

lemma deleteChild_frame [simp]: "cascadeFrame s (deleteChild p l s)"
  by (auto simp: cascadeFrame_def deleteChild_def deletePackageVersion_def)

lemma deleteTop_frame [simp]: "cascadeFrame s (deleteTop p s)"
  by (auto simp: cascadeFrame_def deleteTop_def deletePackageVersion_def)

lemma usedBy_update_frame [simp]: "cascadeFrame s (s\<lparr>digestUsedBy := m\<rparr>)"
  by (simp add: cascadeFrame_def)

lemma multi_update_frame [simp]: "cascadeFrame s (s\<lparr>numberMultiImagesDeleted := n\<rparr>)"
  by (simp add: cascadeFrame_def)

text \<open>One step of the children loop, as the cases of the source.\<close>

lemma deleteChildren_cases:
  assumes "deleteChildren p (c # cs) s = Inr s'"
  obtains (skip) "deleteChildren p cs s = Inr s'"
      "getPackageByDigest s (digest c) = None \<or>
       digest c \<in> set (deleted s) \<or> digestUsedBy s (digest c) = None"
    | (last) mp label where "getPackageByDigest s (digest c) = Some mp" "name mp = digest c"
      "digest c \<notin> set (deleted s)" "digestUsedBy s (digest c) = Some [name p]"
      "buildLabel s c = Inr label" "deleteChildren p cs (deleteChild mp label s) = Inr s'"
    | (shared) mp parents where "getPackageByDigest s (digest c) = Some mp" "name mp = digest c"
      "digest c \<notin> set (deleted s)" "digestUsedBy s (digest c) = Some parents"
      "parents \<noteq> [name p]"
      "deleteChildren p cs
         (s\<lparr>digestUsedBy := (digestUsedBy s)(digest c \<mapsto> setDelete (name p) parents)\<rparr>) = Inr s'"
proof (cases "getPackageByDigest s (digest c)")
  case None
  with assms show ?thesis by (auto intro: skip)
next
  case (Some mp)
  then have n: "name mp = digest c"
    by (auto simp: getPackageByDigest_def find_Some_iff)
  show ?thesis
  proof (cases "digest c \<in> set (deleted s)")
    case True
    with assms Some n show ?thesis by (auto intro: skip)
  next
    case nd: False
    show ?thesis
    proof (cases "digestUsedBy s (digest c)")
      case None
      with assms Some n nd show ?thesis by (auto intro: skip)
    next
      case ps: (Some parents)
      show ?thesis
      proof (cases "length parents = 1 \<and> name p \<in> set parents")
        case True
        then have e: "parents = [name p]" by (cases parents) auto
        from assms Some n nd ps True obtain label where "buildLabel s c = Inr label"
          "deleteChildren p cs (deleteChild mp label s) = Inr s'"
          by (auto split: sum.splits)
        with Some n nd ps e show ?thesis by (auto intro: last)
      next
        case False
        then have e: "parents \<noteq> [name p]" by auto
        from assms Some n nd ps False
        have "deleteChildren p cs
         (s\<lparr>digestUsedBy := (digestUsedBy s)(digest c \<mapsto> setDelete (name p) parents)\<rparr>) = Inr s'"
          by auto
        with Some n nd ps e show ?thesis by (auto intro: shared)
      qed
    qed
  qed
qed

lemma deleteChildren_frame: "deleteChildren p cs s = Inr s' \<Longrightarrow> cascadeFrame s s'"
proof (induction cs arbitrary: s)
  case Nil
  then show ?case by simp
next
  case (Cons c cs)
  from Cons.prems show ?case
  proof (cases rule: deleteChildren_cases)
    case skip
    then show ?thesis by (auto dest: Cons.IH)
  next
    case (last mp label)
    from Cons.IH[OF last(6)] show ?thesis
      by (rule cascadeFrame_trans[OF deleteChild_frame])
  next
    case (shared mp parents)
    from Cons.IH[OF shared(6)] show ?thesis
      by (rule cascadeFrame_trans[OF usedBy_update_frame])
  qed
qed

lemma deleteManifestChildren_frame:
  assumes "deleteManifestChildren p m s = Inr s'"
  shows "cascadeFrame s s'"
proof (cases "manifests m")
  case None
  with assms show ?thesis by (simp add: deleteManifestChildren_def)
next
  case (Some cs)
  with assms have "deleteChildren p cs
      (s\<lparr>numberMultiImagesDeleted := numberMultiImagesDeleted s + 1\<rparr>) = Inr s'"
    by (simp add: deleteManifestChildren_def)
  from deleteChildren_frame[OF this] show ?thesis
    by (rule cascadeFrame_trans[OF multi_update_frame])
qed

lemma deleteTop_deleted [simp]: "name p \<in> set (deleted (deleteTop p s))"
  by (simp add: deleteTop_def)

lemma top_children_frame:
  assumes "deleteManifestChildren p m (deleteTop p s) = Inr s'"
  shows "cascadeFrame s s'" and "name p \<in> set (deleted s')"
proof -
  from deleteManifestChildren_frame[OF assms] have f: "cascadeFrame (deleteTop p s) s'" .
  then show "cascadeFrame s s'" by (rule cascadeFrame_trans[OF deleteTop_frame])
  from f show "name p \<in> set (deleted s')" using deleteTop_deleted[of p s]
    by (auto simp: cascadeFrame_def)
qed

termination deleteImage
proof (relation "measure (\<lambda>(p, s). card (pending s))")
  show "wf (measure (\<lambda>(p, s). card (pending s)))" by simp
next
  fix ghPackage :: GhPackage and s x2 x2a x2b x2c
  assume a: "name ghPackage \<notin> set (deleted s)"
    and c: "deleteManifestChildren ghPackage x2 (deleteTop ghPackage s) = Inr x2a"
    and r: "referrerActive (name ghPackage) x2a"
  from top_children_frame[OF c]
  have t: "tagsInUse x2a = tagsInUse s" and d: "set (deleted s) \<subseteq> set (deleted x2a)"
    and n: "name ghPackage \<in> set (deleted x2a)"
    by (simp_all add: cascadeFrame_def)
  from r t a have m: "name ghPackage \<in> pending s"
    by (simp add: pending_def referrerActive_def)
  from n have "name ghPackage \<notin> pending x2a" by (simp add: pending_def)
  moreover from t d have "pending x2a \<subseteq> pending s" by (auto simp: pending_def)
  ultimately have "pending x2a \<subset> pending s" using m by auto
  from psubset_card_mono[OF finite_pending this]
  show "((x2c, x2a), ghPackage, s) \<in> measure (\<lambda>(p, s). card (pending s))" by simp
qed

declare deleteImage.simps [simp del]

lemmas cascade_defs =
  doDelete_def deleteImage.simps deleteTop_def deleteChild_def deleteManifestChildren_def
  deletePackageVersion_def referrerActive_def referrerTag_def buildLabel_def startsWith_def

lemma deleteImage_done: "name p \<in> set (deleted s) \<Longrightarrow> deleteImage p s = Inr s"
  by (simp add: deleteImage.simps)

lemma deleteImage_frame:
  "deleteImage p s = Inr s' \<Longrightarrow> cascadeFrame s s' \<and> name p \<in> set (deleted s')"
proof (induction p s arbitrary: s' rule: deleteImage.induct)
  case (1 p s)
  show ?case
  proof (cases "name p \<in> set (deleted s)")
    case True
    with 1(2) show ?thesis by (simp add: deleteImage_done)
  next
    case False
    with 1(2) obtain m s1 where m: "getManifestByDigest s (name p) = Inr m"
      and c: "deleteManifestChildren p m (deleteTop p s) = Inr s1"
      by (auto simp: deleteImage.simps[of p s] split: sum.splits)
    note f = top_children_frame[OF c]
    show ?thesis
    proof (cases "referrerActive (name p) s1")
      case nr: False
      with 1(2) False m c have "s' = s1" by (simp add: deleteImage.simps[of p s])
      with f show ?thesis by simp
    next
      case r: True
      with 1(2) False m c obtain md ap where t: "getTagDigest s1 (referrerTag (name p)) = Inr md"
        and a: "getPackageByDigest s1 md = Some ap" and d: "deleteImage ap s1 = Inr s'"
        by (auto simp: deleteImage.simps[of p s] split: sum.splits option.splits)
      from 1(1)[OF False m c r t a d] have "cascadeFrame s1 s'" by simp
      with f show ?thesis by (auto intro: cascadeFrame_trans simp: cascadeFrame_def)
    qed
  qed
qed

lemma doDeleteLoop_frame:
  "doDeleteLoop ds s = Inr s' \<Longrightarrow>
     cascadeFrame s s' \<and>
     (\<forall>d\<in>set ds. \<exists>p. getPackageByDigest s d = Some p \<and> name p \<in> set (deleted s'))"
proof (induction ds arbitrary: s)
  case Nil
  then show ?case by simp
next
  case (Cons d ds)
  from Cons.prems obtain p s1 where p: "getPackageByDigest s d = Some p"
    and i: "deleteImage p s = Inr s1" and l: "doDeleteLoop ds s1 = Inr s'"
    by (auto split: option.splits sum.splits)
  from deleteImage_frame[OF i] have f1: "cascadeFrame s s1" and n: "name p \<in> set (deleted s1)"
    by simp_all
  from Cons.IH[OF l] have f2: "cascadeFrame s1 s'"
    and a: "\<forall>d\<in>set ds. \<exists>p. getPackageByDigest s1 d = Some p \<and> name p \<in> set (deleted s')"
    by simp_all
  from f2 n have "name p \<in> set (deleted s')" by (auto simp: cascadeFrame_def)
  with p a cascadeFrame_reads(3)[OF f1] cascadeFrame_trans[OF f1 f2] show ?case by auto
qed

lemma doDeleteLoop_again:
  "\<forall>d\<in>set ds. \<exists>p. getPackageByDigest s d = Some p \<and> name p \<in> set (deleted s) \<Longrightarrow>
   doDeleteLoop ds s = Inr s"
  by (induction ds) (auto simp: deleteImage_done)

text \<open>
  Claim C5. When \<^verbatim>\<open>doDelete\<close> has run, running it again on the same delete set, without
  a reload, returns the state unchanged: no further call to the package service, the
  same counters, the same deleted set. For every package whose digest is in the deleted
  set, \<^verbatim>\<open>deleteImage\<close> returns the state unchanged, however the digest was reached.
\<close>

theorem C5_doDelete_twice:
  assumes "doDelete s = Inr s'"
  shows "doDelete s' = Inr s' \<and>
         (\<forall>p. name p \<in> set (deleted s') \<longrightarrow> deleteImage p s' = Inr s')"
proof -
  have "doDelete s' = Inr s'"
  proof (cases "length (deleteSet s) > 0")
    case True
    with assms have l: "doDeleteLoop (deleteSet s) s = Inr s'" by (simp add: doDelete_def)
    from doDeleteLoop_frame[OF l] have f: "cascadeFrame s s'"
      and a: "\<forall>d\<in>set (deleteSet s). \<exists>p. getPackageByDigest s d = Some p \<and> name p \<in> set (deleted s')"
      by simp_all
    from f have e: "deleteSet s' = deleteSet s" by (simp add: cascadeFrame_def)
    from a cascadeFrame_reads(3)[OF f]
    have "doDeleteLoop (deleteSet s) s' = Inr s'" by (intro doDeleteLoop_again) simp
    with e show ?thesis by (simp add: doDelete_def)
  next
    case False
    with assms show ?thesis by (simp add: doDelete_def)
  qed
  then show ?thesis by (simp add: deleteImage_done)
qed

theorem C5_doDelete_twice_witness:
  "doDelete cascadeExample = Inr cascadeDone \<and>
   doDelete cascadeDone = Inr cascadeDone \<and>
   set (deleteSet cascadeDone) \<subseteq> set (deleted cascadeDone) \<and>
   name (version 3 ''sha256:c'' []) \<in> set (deleted cascadeDone) \<and>
   deleteImage (version 3 ''sha256:c'' []) cascadeDone = Inr cascadeDone \<and>
   name (version 4 ''sha256:r'' [''sha256-p1'']) \<in> set (deleted cascadeDone) \<and>
   deleteImage (version 4 ''sha256:r'' [''sha256-p1'']) cascadeDone = Inr cascadeDone \<and>
   numberImagesDeleted cascadeDone = 4 \<and> numberMultiImagesDeleted cascadeDone = 2"
proof -
  have h: "doDelete cascadeExample = Inr cascadeDone"
    by (simp add: cascadeExample_def cascadeDone_def example_defs read_defs set_defs cascade_defs)
  have d: "name (version 3 ''sha256:c'' []) \<in> set (deleted cascadeDone)"
    "name (version 4 ''sha256:r'' [''sha256-p1'']) \<in> set (deleted cascadeDone)"
    "set (deleteSet cascadeDone) \<subseteq> set (deleted cascadeDone)"
    "numberImagesDeleted cascadeDone = 4" "numberMultiImagesDeleted cascadeDone = 2"
    by (simp_all add: cascadeDone_def cascadeExample_def example_defs)
  from C5_doDelete_twice[OF h] h d show ?thesis by simp
qed

lemma deleteCalls_append [simp]: "deleteCalls (xs @ ys) = deleteCalls xs @ deleteCalls ys"
  by (induction xs rule: deleteCalls.induct) auto

lemma deleteChild_reads [simp]:
  "getPackageByDigest (deleteChild mp l s) = getPackageByDigest s"
  "deleteCalls (calls (deleteChild mp l s)) = deleteCalls (calls s) @ [name mp]"
  "digestUsedBy (deleteChild mp l s) = (digestUsedBy s)(name mp := None)"
  "deleted (deleteChild mp l s) = setAdd (name mp) (deleted s)"
  by (simp_all add: fun_eq_iff deleteChild_def deletePackageVersion_def getPackageByDigest_def)

lemma deleteTop_reads [simp]:
  "getPackageByDigest (deleteTop p s) = getPackageByDigest s"
  "deleteCalls (calls (deleteTop p s)) = deleteCalls (calls s) @ [name p]"
  "digestUsedBy (deleteTop p s) = digestUsedBy s"
  "deleted (deleteTop p s) = setAdd (name p) (deleted s)"
  by (simp_all add: fun_eq_iff deleteTop_def deletePackageVersion_def getPackageByDigest_def)

lemma usedBy_update_reads [simp]:
  "getPackageByDigest (s\<lparr>digestUsedBy := m\<rparr>) = getPackageByDigest s"
  "getPackageByDigest (s\<lparr>numberMultiImagesDeleted := n\<rparr>) = getPackageByDigest s"
  by (simp_all add: fun_eq_iff getPackageByDigest_def)

text \<open>A child with a parent other than the image survives the children loop.\<close>

lemma deleteChildren_keeps:
  assumes "deleteChildren p cs s = Inr s'"
    and "digestUsedBy s C = Some ps" and "distinct ps" and "P2 \<in> set ps" and "name p \<noteq> P2"
    and "C \<notin> set (deleted s)" and "C \<notin> set (deleteCalls (calls s))"
  shows "C \<notin> set (deleted s') \<and> C \<notin> set (deleteCalls (calls s')) \<and>
         (\<exists>ps'. digestUsedBy s' C = Some ps' \<and> distinct ps' \<and> P2 \<in> set ps' \<and>
                set ps' \<subseteq> set ps \<and>
                (C \<in> digest ` set cs \<and> getPackageByDigest s C \<noteq> None \<longrightarrow> name p \<notin> set ps'))"
  using assms
proof (induction cs arbitrary: s ps)
  case Nil
  then show ?case by simp
next
  case (Cons c cs)
  from Cons.prems(1) show ?case
  proof (cases rule: deleteChildren_cases)
    case skip
    from Cons.IH[OF skip(1) Cons.prems(2-7)] skip(2) Cons.prems(2,6) show ?thesis by auto
  next
    case (last mp label)
    with Cons.prems(2,4,5) have ne: "digest c \<noteq> C" by auto
    with last Cons.prems have "digestUsedBy (deleteChild mp label s) C = Some ps"
      "C \<notin> set (deleted (deleteChild mp label s))"
      "C \<notin> set (deleteCalls (calls (deleteChild mp label s)))"
      by simp_all
    from Cons.IH[OF last(6) this(1) Cons.prems(3,4,5) this(2,3)] ne show ?thesis by auto
  next
    case (shared mp parents)
    let ?s = "s\<lparr>digestUsedBy := (digestUsedBy s)(digest c \<mapsto> setDelete (name p) parents)\<rparr>"
    show ?thesis
    proof (cases "digest c = C")
      case True
      with shared Cons.prems(2) have e: "parents = ps" by simp
      have u: "digestUsedBy ?s C = Some (setDelete (name p) ps)" using True e by simp
      have d: "distinct (setDelete (name p) ps)" "P2 \<in> set (setDelete (name p) ps)"
        using Cons.prems(3,4,5) by (auto simp: setDelete_def distinct_removeAll)
      have n: "C \<notin> set (deleted ?s)" "C \<notin> set (deleteCalls (calls ?s))"
        using Cons.prems(6,7) by simp_all
      from Cons.IH[OF shared(6) u d Cons.prems(5) n] show ?thesis by auto
    next
      case False
      then have u: "digestUsedBy ?s C = Some ps" using Cons.prems(2) by simp
      have n: "C \<notin> set (deleted ?s)" "C \<notin> set (deleteCalls (calls ?s))"
        using Cons.prems(6,7) by simp_all
      from Cons.IH[OF shared(6) u Cons.prems(3,4,5) n] False show ?thesis by auto
    qed
  qed
qed

text \<open>Once a child is deleted and its entry dropped, the children loop keeps it so.\<close>

lemma deleteChildren_gone:
  assumes "deleteChildren p cs s = Inr s'" and "digestUsedBy s C = None"
  shows "digestUsedBy s' C = None"
  using assms
proof (induction cs arbitrary: s)
  case Nil
  then show ?case by simp
next
  case (Cons c cs)
  from Cons.prems(1) show ?case
  proof (cases rule: deleteChildren_cases)
    case skip
    from Cons.IH[OF skip(1) Cons.prems(2)] show ?thesis .
  next
    case (last mp label)
    from Cons.prems(2) have "digestUsedBy (deleteChild mp label s) C = None" by simp
    from Cons.IH[OF last(6) this] show ?thesis .
  next
    case (shared mp parents)
    with Cons.prems(2) have "digest c \<noteq> C" by auto
    with Cons.prems(2)
    have "digestUsedBy (s\<lparr>digestUsedBy := (digestUsedBy s)(digest c \<mapsto> setDelete (name p) parents)\<rparr>) C = None"
      by simp
    from Cons.IH[OF shared(6) this] show ?thesis .
  qed
qed

lemma deleteChildren_calls_mono:
  "deleteChildren p cs s = Inr s' \<Longrightarrow>
     set (deleteCalls (calls s)) \<subseteq> set (deleteCalls (calls s'))"
proof (induction cs arbitrary: s)
  case Nil
  then show ?case by simp
next
  case (Cons c cs)
  from Cons.prems(1) show ?case
  proof (cases rule: deleteChildren_cases)
    case skip
    from Cons.IH[OF skip(1)] show ?thesis .
  next
    case (last mp label)
    from Cons.IH[OF last(6)] show ?thesis by auto
  next
    case (shared mp parents)
    from Cons.IH[OF shared(6)] show ?thesis by simp
  qed
qed

lemma deleteChildren_deleted_subset:
  "deleteChildren p cs s = Inr s' \<Longrightarrow> set (deleted s') \<subseteq> set (deleted s) \<union> digest ` set cs"
proof (induction cs arbitrary: s)
  case Nil
  then show ?case by simp
next
  case (Cons c cs)
  from Cons.prems(1) show ?case
  proof (cases rule: deleteChildren_cases)
    case skip
    from Cons.IH[OF skip(1)] show ?thesis by auto
  next
    case (last mp label)
    from Cons.IH[OF last(6)] last(2) show ?thesis by auto
  next
    case (shared mp parents)
    from Cons.IH[OF shared(6)] show ?thesis by auto
  qed
qed

text \<open>A child whose only recorded parent is the image is deleted by the children loop.\<close>

lemma deleteChildren_last:
  assumes "deleteChildren p cs s = Inr s'"
    and "digestUsedBy s C = Some [name p]" and "C \<notin> set (deleted s)"
    and "C \<in> digest ` set cs" and "getPackageByDigest s C \<noteq> None"
  shows "C \<in> set (deleted s') \<and> digestUsedBy s' C = None \<and> C \<in> set (deleteCalls (calls s'))"
  using assms
proof (induction cs arbitrary: s)
  case Nil
  then show ?case by simp
next
  case (Cons c cs)
  from Cons.prems(1) show ?case
  proof (cases rule: deleteChildren_cases)
    case skip
    with Cons.prems(2,3,5) have ne: "digest c \<noteq> C" by auto
    with Cons.prems(4) have "C \<in> digest ` set cs" by auto
    from Cons.IH[OF skip(1) Cons.prems(2,3) this Cons.prems(5)] show ?thesis .
  next
    case (last mp label)
    show ?thesis
    proof (cases "digest c = C")
      case True
      let ?s = "deleteChild mp label s"
      from True last have a: "C \<in> set (deleted ?s)" "digestUsedBy ?s C = None"
        "C \<in> set (deleteCalls (calls ?s))" by simp_all
      from deleteChildren_frame[OF last(6)] a(1) have "C \<in> set (deleted s')"
        by (auto simp: cascadeFrame_def)
      moreover from deleteChildren_gone[OF last(6) a(2)] have "digestUsedBy s' C = None" .
      moreover from deleteChildren_calls_mono[OF last(6)] a(3)
      have "C \<in> set (deleteCalls (calls s'))" by auto
      ultimately show ?thesis by simp
    next
      case False
      with last Cons.prems have "digestUsedBy (deleteChild mp label s) C = Some [name p]"
        "C \<notin> set (deleted (deleteChild mp label s))" "C \<in> digest ` set cs"
        "getPackageByDigest (deleteChild mp label s) C \<noteq> None"
        by auto
      from Cons.IH[OF last(6) this] show ?thesis .
    qed
  next
    case (shared mp parents)
    with Cons.prems(2) have ne: "digest c \<noteq> C" by auto
    let ?s = "s\<lparr>digestUsedBy := (digestUsedBy s)(digest c \<mapsto> setDelete (name p) parents)\<rparr>"
    from ne Cons.prems have "digestUsedBy ?s C = Some [name p]" "C \<notin> set (deleted ?s)"
      "C \<in> digest ` set cs" "getPackageByDigest ?s C \<noteq> None" by auto
    from Cons.IH[OF shared(6) this] show ?thesis .
  qed
qed

lemma deleteImage_unfold:
  assumes "deleteImage p s = Inr s'" and "name p \<notin> set (deleted s)"
  obtains m s1 where "getManifestByDigest s (name p) = Inr m"
    and "deleteManifestChildren p m (deleteTop p s) = Inr s1"
    and "referrerActive (name p) s \<Longrightarrow>
           \<exists>md ap. getTagDigest s (referrerTag (name p)) = Inr md \<and>
                   getPackageByDigest s md = Some ap \<and> deleteImage ap s1 = Inr s'"
    and "\<not> referrerActive (name p) s \<Longrightarrow> s' = s1"
proof -
  from assms obtain m s1 where m: "getManifestByDigest s (name p) = Inr m"
    and c: "deleteManifestChildren p m (deleteTop p s) = Inr s1"
    by (auto simp: deleteImage.simps[of p s] split: sum.splits)
  from top_children_frame(1)[OF c] have f: "cascadeFrame s s1" .
  note r = cascadeFrame_reads[OF f]
  have "referrerActive (name p) s \<Longrightarrow>
           \<exists>md ap. getTagDigest s (referrerTag (name p)) = Inr md \<and>
                   getPackageByDigest s md = Some ap \<and> deleteImage ap s1 = Inr s'"
    using assms m c r by (auto simp: deleteImage.simps[of p s] split: sum.splits option.splits)
  moreover have "\<not> referrerActive (name p) s \<Longrightarrow> s' = s1"
    using assms m c r by (auto simp: deleteImage.simps[of p s])
  ultimately show ?thesis using m c that by blast
qed

lemma deleteManifestChildren_gone:
  assumes "deleteManifestChildren p m s = Inr s'" and "digestUsedBy s C = None"
  shows "digestUsedBy s' C = None"
proof (cases "manifests m")
  case None
  with assms show ?thesis by (simp add: deleteManifestChildren_def)
next
  case (Some cs)
  with assms(1) have "deleteChildren p cs
      (s\<lparr>numberMultiImagesDeleted := numberMultiImagesDeleted s + 1\<rparr>) = Inr s'"
    by (simp add: deleteManifestChildren_def)
  from deleteChildren_gone[OF this] assms(2) show ?thesis by simp
qed

lemma deleteManifestChildren_calls_mono:
  assumes "deleteManifestChildren p m s = Inr s'"
  shows "set (deleteCalls (calls s)) \<subseteq> set (deleteCalls (calls s'))"
proof (cases "manifests m")
  case None
  with assms show ?thesis by (simp add: deleteManifestChildren_def)
next
  case (Some cs)
  with assms(1) have "deleteChildren p cs
      (s\<lparr>numberMultiImagesDeleted := numberMultiImagesDeleted s + 1\<rparr>) = Inr s'"
    by (simp add: deleteManifestChildren_def)
  from deleteChildren_calls_mono[OF this] show ?thesis by simp
qed

lemma deleteImage_gone:
  "deleteImage p s = Inr s' \<Longrightarrow> digestUsedBy s C = None \<Longrightarrow>
     digestUsedBy s' C = None \<and> set (deleteCalls (calls s)) \<subseteq> set (deleteCalls (calls s'))"
proof (induction p s arbitrary: s' rule: deleteImage.induct)
  case (1 p s)
  show ?case
  proof (cases "name p \<in> set (deleted s)")
    case True
    with 1(2,3) show ?thesis by (simp add: deleteImage_done)
  next
    case False
    with 1(2) obtain m s1 where m: "getManifestByDigest s (name p) = Inr m"
      and c: "deleteManifestChildren p m (deleteTop p s) = Inr s1"
      by (auto simp: deleteImage.simps[of p s] split: sum.splits)
    from deleteManifestChildren_gone[OF c] 1(3) have g: "digestUsedBy s1 C = None" by simp
    from deleteManifestChildren_calls_mono[OF c]
    have k: "set (deleteCalls (calls s)) \<subseteq> set (deleteCalls (calls s1))" by auto
    show ?thesis
    proof (cases "referrerActive (name p) s1")
      case nr: False
      with 1(2) False m c have "s' = s1" by (simp add: deleteImage.simps[of p s])
      with g k show ?thesis by simp
    next
      case r: True
      with 1(2) False m c obtain md ap where t: "getTagDigest s1 (referrerTag (name p)) = Inr md"
        and a: "getPackageByDigest s1 md = Some ap" and d: "deleteImage ap s1 = Inr s'"
        by (auto simp: deleteImage.simps[of p s] split: sum.splits option.splits)
      from 1(1)[OF False m c r t a d g] k show ?thesis by auto
    qed
  qed
qed

lemma childDigests_manifest:
  assumes "C \<in> set (childDigests s P)" and "getManifestByDigest s P = Inr m"
  obtains cs where "manifests m = Some cs" and "C \<in> digest ` set cs"
proof (cases "manifests m")
  case None
  with assms show ?thesis by (simp add: childDigests_def)
next
  case (Some cs)
  with assms have "C \<in> digest ` set cs" by (simp add: childDigests_def)
  with Some show ?thesis by (rule that)
qed

lemma distinct_single: "distinct xs \<Longrightarrow> set xs = {x} \<Longrightarrow> xs = [x]"
proof (cases xs)
  case Nil
  assume "set xs = {x}" with Nil show ?thesis by simp
next
  case (Cons y ys)
  assume "distinct xs" "set xs = {x}"
  with Cons have "y = x" "set ys \<subseteq> {x}" "y \<notin> set ys" by auto
  then have "ys = []" by (cases ys) auto
  with \<open>y = x\<close> Cons show ?thesis by simp
qed

lemma getPackageByDigest_name: "getPackageByDigest s d = Some p \<Longrightarrow> name p = d"
  unfolding getPackageByDigest_def by (auto simp: find_Some_iff)

lemma referrerOf_frame: "cascadeFrame s0 s \<Longrightarrow> referrerOf s = referrerOf s0"
  by (simp add: fun_eq_iff referrerOf_def cascadeFrame_reads)

lemma childDigests_frame: "cascadeFrame s0 s \<Longrightarrow> childDigests s = childDigests s0"
  by (simp add: fun_eq_iff childDigests_def cascadeFrame_reads)

lemma deleteManifestChildren_keeps:
  assumes "deleteManifestChildren p m s = Inr s'"
    and "digestUsedBy s C = Some ps" and "distinct ps" and "P2 \<in> set ps" and "name p \<noteq> P2"
    and "C \<notin> set (deleted s)" and "C \<notin> set (deleteCalls (calls s))"
  shows "C \<notin> set (deleted s') \<and> C \<notin> set (deleteCalls (calls s')) \<and>
         (\<exists>ps'. digestUsedBy s' C = Some ps' \<and> distinct ps' \<and> P2 \<in> set ps' \<and>
                set ps' \<subseteq> set ps \<and>
                (C \<in> set (manifestChildren (Inr m)) \<and> getPackageByDigest s C \<noteq> None \<longrightarrow>
                   name p \<notin> set ps'))"
proof (cases "manifests m")
  case None
  with assms show ?thesis by (simp add: deleteManifestChildren_def manifestChildren_def)
next
  case (Some cs)
  let ?t = "s\<lparr>numberMultiImagesDeleted := numberMultiImagesDeleted s + 1\<rparr>"
  from assms(1) Some have l: "deleteChildren p cs ?t = Inr s'"
    by (simp add: deleteManifestChildren_def)
  have pre: "digestUsedBy ?t C = Some ps" "C \<notin> set (deleted ?t)"
    "C \<notin> set (deleteCalls (calls ?t))"
    using assms(2,6,7) by simp_all
  from deleteChildren_keeps[OF l pre(1) assms(3,4,5) pre(2,3)] Some show ?thesis
    by (simp add: manifestChildren_def)
qed

lemma deleteManifestChildren_deleted_subset:
  assumes "deleteManifestChildren p m s = Inr s'"
  shows "set (deleted s') \<subseteq> set (deleted s) \<union> set (manifestChildren (Inr m))"
proof (cases "manifests m")
  case None
  with assms show ?thesis by (simp add: deleteManifestChildren_def)
next
  case (Some cs)
  with assms have "deleteChildren p cs
      (s\<lparr>numberMultiImagesDeleted := numberMultiImagesDeleted s + 1\<rparr>) = Inr s'"
    by (simp add: deleteManifestChildren_def)
  from deleteChildren_deleted_subset[OF this] Some show ?thesis
    by (simp add: manifestChildren_def)
qed

lemma childDigests_children:
  "getManifestByDigest s d = Inr m \<Longrightarrow> childDigests s d = manifestChildren (Inr m)"
  by (simp add: childDigests_def manifestChildren_def)


text \<open>What survives the whole cascade from an image.\<close>

lemma deleteImage_keeps:
  assumes "deleteImage p s = Inr s'" and "cascadeFrame s0 s"
    and "digestUsedBy s C = Some ps" and "distinct ps" and "P2 \<in> set ps"
    and "C \<notin> set (deleted s)" and "C \<notin> set (deleteCalls (calls s))"
    and "name p \<noteq> P2" and "name p \<noteq> C"
    and "\<not> referred s0 (name p) P2" and "\<not> referred s0 (name p) C"
  shows "C \<notin> set (deleted s') \<and> C \<notin> set (deleteCalls (calls s')) \<and>
         (\<exists>ps'. digestUsedBy s' C = Some ps' \<and> distinct ps' \<and> P2 \<in> set ps' \<and>
                set ps' \<subseteq> set ps \<and>
                (name p \<notin> set (deleted s) \<and> C \<in> set (childDigests s (name p)) \<and>
                 getPackageByDigest s C \<noteq> None \<longrightarrow> name p \<notin> set ps'))"
  using assms
proof (induction p s arbitrary: s' ps rule: deleteImage.induct)
  case (1 p s)
  show ?case
  proof (cases "name p \<in> set (deleted s)")
    case True
    with 1(2) have "s' = s" by (simp add: deleteImage_done)
    with True 1(4-8) show ?thesis by simp
  next
    case False
    with 1(2) obtain m s1 where m: "getManifestByDigest s (name p) = Inr m"
      and c: "deleteManifestChildren p m (deleteTop p s) = Inr s1"
      by (auto simp: deleteImage.simps[of p s] split: sum.splits)
    have pre: "digestUsedBy (deleteTop p s) C = Some ps" "C \<notin> set (deleted (deleteTop p s))"
      "C \<notin> set (deleteCalls (calls (deleteTop p s)))"
      using 1(4,7,8,10) by auto
    from deleteManifestChildren_keeps[OF c pre(1) 1(5,6,9) pre(2,3)]
    obtain ps1 where k: "C \<notin> set (deleted s1)" "C \<notin> set (deleteCalls (calls s1))"
      "digestUsedBy s1 C = Some ps1" "distinct ps1" "P2 \<in> set ps1" "set ps1 \<subseteq> set ps"
      "C \<in> set (manifestChildren (Inr m)) \<and> getPackageByDigest (deleteTop p s) C \<noteq> None \<longrightarrow>
         name p \<notin> set ps1"
      by blast
    from k(7) childDigests_children[OF m]
    have k7: "C \<in> set (childDigests s (name p)) \<and> getPackageByDigest s C \<noteq> None \<longrightarrow>
         name p \<notin> set ps1" by simp
    note f = top_children_frame[OF c]
    show ?thesis
    proof (cases "referrerActive (name p) s1")
      case nr: False
      with 1(2) False m c have "s' = s1" by (simp add: deleteImage.simps[of p s])
      with k(1-6) k7 show ?thesis by blast
    next
      case r: True
      with 1(2) False m c obtain md ap where t: "getTagDigest s1 (referrerTag (name p)) = Inr md"
        and a: "getPackageByDigest s1 md = Some ap" and d: "deleteImage ap s1 = Inr s'"
        by (auto simp: deleteImage.simps[of p s] split: sum.splits option.splits)
      from cascadeFrame_trans[OF 1(3) f(1)] have f0: "cascadeFrame s0 s1" .
      from a have na: "name ap = md" by (rule getPackageByDigest_name)
      from r t have "referrerOf s1 (name p) = Some md" by (simp add: referrerOf_def)
      with referrerOf_frame[OF f0] have ro: "referrerOf s0 (name p) = Some md" by simp
      then have rd: "referred s0 (name p) md" by (rule referred.direct)
      with 1(11,12) have ne: "name ap \<noteq> P2" "name ap \<noteq> C" using na by auto
      have nr: "\<not> referred s0 (name ap) P2" "\<not> referred s0 (name ap) C"
        using 1(11,12) ro na by (auto dest: referred.onward)
      from 1(1)[OF False m c r t a d f0 k(3,4,5,1,2) ne nr]
      obtain ps' where z: "C \<notin> set (deleted s')" "C \<notin> set (deleteCalls (calls s'))"
        "digestUsedBy s' C = Some ps'" "distinct ps'" "P2 \<in> set ps'" "set ps' \<subseteq> set ps1"
        by blast
      from z(6) k(6) have "set ps' \<subseteq> set ps" by blast
      moreover from z(6) k7 have "C \<in> set (childDigests s (name p)) \<and>
         getPackageByDigest s C \<noteq> None \<longrightarrow> name p \<notin> set ps'" by blast
      ultimately show ?thesis using z(1-5) by blast
    qed
  qed
qed

text \<open>
  What the cascade from an image deletes: the image, the digests reached from it through
  referrer tags, and children of these.
\<close>

lemma deleteImage_deleted:
  assumes "deleteImage p s = Inr s'" and "cascadeFrame s0 s"
  shows "set (deleted s') \<subseteq>
           set (deleted s) \<union> {name p} \<union> set (childDigests s0 (name p)) \<union>
           {X. referred s0 (name p) X} \<union>
           (\<Union>X\<in>{X. referred s0 (name p) X}. set (childDigests s0 X))"
  using assms
proof (induction p s arbitrary: s' rule: deleteImage.induct)
  case (1 p s)
  show ?case
  proof (cases "name p \<in> set (deleted s)")
    case True
    with 1(2) have "s' = s" by (simp add: deleteImage_done)
    then show ?thesis by auto
  next
    case False
    with 1(2) obtain m s1 where m: "getManifestByDigest s (name p) = Inr m"
      and c: "deleteManifestChildren p m (deleteTop p s) = Inr s1"
      by (auto simp: deleteImage.simps[of p s] split: sum.splits)
    from childDigests_children[OF m] childDigests_frame[OF 1(3)]
    have ch: "manifestChildren (Inr m) = childDigests s0 (name p)" by simp
    from deleteManifestChildren_deleted_subset[OF c] ch
    have d1: "set (deleted s1) \<subseteq> set (deleted s) \<union> {name p} \<union> set (childDigests s0 (name p))"
      by auto
    note f = top_children_frame[OF c]
    show ?thesis
    proof (cases "referrerActive (name p) s1")
      case nr: False
      with 1(2) False m c have "s' = s1" by (simp add: deleteImage.simps[of p s])
      with d1 show ?thesis by auto
    next
      case r: True
      with 1(2) False m c obtain md ap where t: "getTagDigest s1 (referrerTag (name p)) = Inr md"
        and a: "getPackageByDigest s1 md = Some ap" and d: "deleteImage ap s1 = Inr s'"
        by (auto simp: deleteImage.simps[of p s] split: sum.splits option.splits)
      from cascadeFrame_trans[OF 1(3) f(1)] have f0: "cascadeFrame s0 s1" .
      from a have na: "name ap = md" by (rule getPackageByDigest_name)
      from r t have "referrerOf s1 (name p) = Some md" by (simp add: referrerOf_def)
      with referrerOf_frame[OF f0] have ro: "referrerOf s0 (name p) = Some md" by simp
      then have rd: "referred s0 (name p) md" by (rule referred.direct)
      have on: "\<And>X. referred s0 md X \<Longrightarrow> referred s0 (name p) X"
        using ro by (rule referred.onward)
      from 1(1)[OF False m c r t a d f0] na
      have d2: "set (deleted s') \<subseteq>
           set (deleted s1) \<union> {md} \<union> set (childDigests s0 md) \<union>
           {X. referred s0 md X} \<union> (\<Union>X\<in>{X. referred s0 md X}. set (childDigests s0 X))"
        by simp
      show ?thesis
      proof
        fix x assume "x \<in> set (deleted s')"
        with d2 consider "x \<in> set (deleted s1)" | "x = md" | "x \<in> set (childDigests s0 md)"
          | "referred s0 md x" | X where "referred s0 md X" "x \<in> set (childDigests s0 X)"
          by blast
        then show "x \<in> set (deleted s) \<union> {name p} \<union> set (childDigests s0 (name p)) \<union>
           {X. referred s0 (name p) X} \<union>
           (\<Union>X\<in>{X. referred s0 (name p) X}. set (childDigests s0 X))"
        proof cases
          case 1
          with d1 show ?thesis by blast
        next
          case 2
          with rd show ?thesis by blast
        next
          case 3
          with rd show ?thesis by blast
        next
          case 4
          with on show ?thesis by blast
        next
          case 5
          with on show ?thesis by blast
        qed
      qed
    qed
  qed
qed

text \<open>
  Claim C1, amended. A child \<open>C\<close> is recorded with exactly the parents \<open>P1\<close> and \<open>P2\<close>,
  both index manifests that list it, and nothing of the three is deleted yet. Provided
  that following referrers from \<open>P1\<close> reaches neither \<open>P2\<close> nor \<open>C\<close>, \<^verbatim>\<open>deleteImage\<close> on
  \<open>P1\<close> does not delete \<open>C\<close> and leaves its entry as \<open>[P2]\<close>. If that call has not
  deleted \<open>P2\<close> itself, \<^verbatim>\<open>deleteImage\<close> on \<open>P2\<close> afterwards deletes \<open>C\<close> and drops its
  entry; if it has, the second call does nothing. The call on \<open>P1\<close> does not delete
  \<open>P2\<close> when \<open>P2\<close> is listed as a child neither by \<open>P1\<close> nor by a digest reached from
  \<open>P1\<close> through referrers.
\<close>

theorem C1_shared_child:
  assumes names: "name p1 = P1" "name p2 = P2"
    and diff: "P1 \<noteq> P2" "C \<noteq> P1" "C \<noteq> P2"
    and parents: "digestUsedBy s C = Some ps" "distinct ps" "set ps = {P1, P2}"
    and indexed: "C \<in> set (childDigests s P1)" "C \<in> set (childDigests s P2)"
    and known: "getPackageByDigest s C \<noteq> None"
    and fresh: "P1 \<notin> set (deleted s)" "P2 \<notin> set (deleted s)" "C \<notin> set (deleted s)"
      "C \<notin> set (deleteCalls (calls s))"
    and reach: "\<not> referred s P1 P2" "\<not> referred s P1 C"
    and first: "deleteImage p1 s = Inr s1"
    and second: "deleteImage p2 s1 = Inr s2"
  shows "C \<notin> set (deleted s1) \<and> C \<notin> set (deleteCalls (calls s1)) \<and>
         digestUsedBy s1 C = Some [P2] \<and>
         (P2 \<notin> set (deleted s1) \<longrightarrow>
            C \<in> set (deleted s2) \<and> C \<in> set (deleteCalls (calls s2)) \<and>
            digestUsedBy s2 C = None) \<and>
         (P2 \<in> set (deleted s1) \<longrightarrow> s2 = s1) \<and>
         (P2 \<notin> set (childDigests s P1) \<and>
          (\<forall>X. referred s P1 X \<longrightarrow> P2 \<notin> set (childDigests s X)) \<longrightarrow>
            P2 \<notin> set (deleted s1))"
proof -
  have p2: "P2 \<in> set ps" using parents(3) by simp
  from deleteImage_keeps[OF first cascadeFrame_refl parents(1,2) p2 fresh(3,4)]
    names(1) diff reach fresh(1) indexed(1) known
  obtain ps1 where k: "C \<notin> set (deleted s1)" "C \<notin> set (deleteCalls (calls s1))"
    "digestUsedBy s1 C = Some ps1" "distinct ps1" "P2 \<in> set ps1" "set ps1 \<subseteq> set ps"
    "P1 \<notin> set ps1"
    by auto
  from k(5,6,7) parents(3) have "set ps1 = {P2}" by auto
  with k(4) have e: "ps1 = [P2]" by (rule distinct_single)
  from deleteImage_frame[OF first] have f1: "cascadeFrame s s1" by simp
  note r1 = cascadeFrame_reads[OF f1]
  have a: "P2 \<notin> set (deleted s1) \<longrightarrow>
            C \<in> set (deleted s2) \<and> C \<in> set (deleteCalls (calls s2)) \<and>
            digestUsedBy s2 C = None"
  proof
    assume nd2: "P2 \<notin> set (deleted s1)"
    with names(2) have nd2': "name p2 \<notin> set (deleted s1)" by simp
    obtain m2 s1' where m2: "getManifestByDigest s1 P2 = Inr m2"
      and c2: "deleteManifestChildren p2 m2 (deleteTop p2 s1) = Inr s1'"
      and rest: "referrerActive P2 s1 \<Longrightarrow>
           \<exists>md ap. getTagDigest s1 (referrerTag P2) = Inr md \<and>
                   getPackageByDigest s1 md = Some ap \<and> deleteImage ap s1' = Inr s2"
       "\<not> referrerActive P2 s1 \<Longrightarrow> s2 = s1'"
      by (rule deleteImage_unfold[OF second nd2']) (use names(2) in auto)
    from m2 r1(1) have m2': "getManifestByDigest s P2 = Inr m2" by simp
    from indexed(2) m2' obtain cs2 where cs2: "manifests m2 = Some cs2" "C \<in> digest ` set cs2"
      by (rule childDigests_manifest)
    let ?u = "(deleteTop p2 s1)\<lparr>numberMultiImagesDeleted := numberMultiImagesDeleted (deleteTop p2 s1) + 1\<rparr>"
    from c2 cs2 have l2: "deleteChildren p2 cs2 ?u = Inr s1'"
      by (simp add: deleteManifestChildren_def)
    have pre2: "digestUsedBy ?u C = Some [name p2]" "C \<notin> set (deleted ?u)"
      "getPackageByDigest ?u C \<noteq> None"
      using k e names diff known r1(3) by simp_all
    from deleteChildren_last[OF l2 pre2(1,2) cs2(2) pre2(3)]
    have g: "C \<in> set (deleted s1')" "digestUsedBy s1' C = None" "C \<in> set (deleteCalls (calls s1'))"
      by simp_all
    show "C \<in> set (deleted s2) \<and> C \<in> set (deleteCalls (calls s2)) \<and> digestUsedBy s2 C = None"
    proof (cases "referrerActive P2 s1")
      case False
      with rest(2) g show ?thesis by simp
    next
      case True
      with rest(1) obtain ap where d: "deleteImage ap s1' = Inr s2" by blast
      from deleteImage_frame[OF d] g(1) have "C \<in> set (deleted s2)" by (auto simp: cascadeFrame_def)
      with deleteImage_gone[OF d g(2)] g(3) show ?thesis by auto
    qed
  qed
  have b: "P2 \<in> set (deleted s1) \<longrightarrow> s2 = s1"
    using second names(2) by (auto simp: deleteImage_done)
  have c: "P2 \<notin> set (childDigests s P1) \<and>
          (\<forall>X. referred s P1 X \<longrightarrow> P2 \<notin> set (childDigests s X)) \<longrightarrow>
            P2 \<notin> set (deleted s1)"
  proof
    assume h: "P2 \<notin> set (childDigests s P1) \<and>
          (\<forall>X. referred s P1 X \<longrightarrow> P2 \<notin> set (childDigests s X))"
    from deleteImage_deleted[OF first cascadeFrame_refl] names(1)
    have "set (deleted s1) \<subseteq>
           set (deleted s) \<union> {P1} \<union> set (childDigests s P1) \<union>
           {X. referred s P1 X} \<union> (\<Union>X\<in>{X. referred s P1 X}. set (childDigests s X))"
      by simp
    with h fresh(2) diff(1) reach(1) show "P2 \<notin> set (deleted s1)" by blast
  qed
  from k(1,2) k(3)[unfolded e] a b c show ?thesis by (intro conjI)
qed

lemma cascadeExample_referred:
  "referred cascadeExample ''sha256:p1'' X \<Longrightarrow> X = ''sha256:r''"
proof (erule referred.cases)
  fix d d' assume "''sha256:p1'' = d" "X = d'" "referrerOf cascadeExample d = Some d'"
  then show "X = ''sha256:r''"
    by (auto simp: referrerOf_def cascadeExample_def example_defs read_defs referrerActive_def
        referrerTag_def split: if_splits)
next
  fix d d' d'' assume a: "''sha256:p1'' = d" "X = d''" "referrerOf cascadeExample d = Some d'"
    and r: "referred cascadeExample d' d''"
  from a have d': "d' = ''sha256:r''"
    by (auto simp: referrerOf_def cascadeExample_def example_defs read_defs referrerActive_def
        referrerTag_def split: if_splits)
  have "referrerOf cascadeExample ''sha256:r'' = None"
    by (simp add: referrerOf_def cascadeExample_def example_defs read_defs referrerActive_def
        referrerTag_def)
  with r d' show "X = ''sha256:r''" by (auto elim: referred.cases)
qed

theorem C1_shared_child_witness:
  "loadDigestUsedByMap cascadeExample = Inr cascadeExample \<and>
   digestUsedBy cascadeExample ''sha256:c'' = Some [''sha256:p1'', ''sha256:p2''] \<and>
   referred cascadeExample ''sha256:p1'' ''sha256:r'' \<and>
   \<not> referred cascadeExample ''sha256:p1'' ''sha256:p2'' \<and>
   \<not> referred cascadeExample ''sha256:p1'' ''sha256:c'' \<and>
   deleteImage (version 1 ''sha256:p1'' [''v1'']) cascadeExample = Inr cascadeFirst \<and>
   deleteImage (version 2 ''sha256:p2'' [''v2'']) cascadeFirst = Inr cascadeDone \<and>
   ''sha256:r'' \<in> set (deleted cascadeFirst) \<and>
   ''sha256:p2'' \<notin> set (deleted cascadeFirst) \<and>
   ''sha256:c'' \<notin> set (deleted cascadeFirst) \<and>
   ''sha256:c'' \<notin> set (deleteCalls (calls cascadeFirst)) \<and>
   digestUsedBy cascadeFirst ''sha256:c'' = Some [''sha256:p2''] \<and>
   ''sha256:c'' \<in> set (deleted cascadeDone) \<and>
   ''sha256:c'' \<in> set (deleteCalls (calls cascadeDone)) \<and>
   digestUsedBy cascadeDone ''sha256:c'' = None"
proof -
  let ?p1 = "version 1 ''sha256:p1'' [''v1'']" and ?p2 = "version 2 ''sha256:p2'' [''v2'']"
  have l: "loadDigestUsedByMap cascadeExample = Inr cascadeExample"
    by (simp add: cascadeExample_def example_defs read_defs set_defs load_defs)
  have n: "name ?p1 = ''sha256:p1''" "name ?p2 = ''sha256:p2''"
    by (simp_all add: version_def)
  have d: "''sha256:p1'' \<noteq> ''sha256:p2''" "''sha256:c'' \<noteq> ''sha256:p1''"
    "''sha256:c'' \<noteq> ''sha256:p2''" by simp_all
  have u: "digestUsedBy cascadeExample ''sha256:c'' = Some [''sha256:p1'', ''sha256:p2'']"
    "distinct [''sha256:p1'', ''sha256:p2'']"
    "set [''sha256:p1'', ''sha256:p2''] = {''sha256:p1'', ''sha256:p2''}"
    by (simp_all add: cascadeExample_def example_defs)
  have i: "''sha256:c'' \<in> set (childDigests cascadeExample ''sha256:p1'')"
    "''sha256:c'' \<in> set (childDigests cascadeExample ''sha256:p2'')"
    by (simp_all add: cascadeExample_def example_defs read_defs load_defs)
  have k: "getPackageByDigest cascadeExample ''sha256:c'' \<noteq> None"
    by (simp add: cascadeExample_def example_defs read_defs)
  have f: "''sha256:p1'' \<notin> set (deleted cascadeExample)"
    "''sha256:p2'' \<notin> set (deleted cascadeExample)"
    "''sha256:c'' \<notin> set (deleted cascadeExample)"
    "''sha256:c'' \<notin> set (deleteCalls (calls cascadeExample))"
    by (simp_all add: cascadeExample_def example_defs)
  have "referrerOf cascadeExample ''sha256:p1'' = Some ''sha256:r''"
    by (simp add: referrerOf_def cascadeExample_def example_defs read_defs referrerActive_def
        referrerTag_def)
  then have r0: "referred cascadeExample ''sha256:p1'' ''sha256:r''" by (rule referred.direct)
  have r: "\<not> referred cascadeExample ''sha256:p1'' ''sha256:p2''"
    "\<not> referred cascadeExample ''sha256:p1'' ''sha256:c''"
    by (auto dest: cascadeExample_referred)
  have e1: "deleteImage ?p1 cascadeExample = Inr cascadeFirst"
    by (simp add: cascadeExample_def cascadeFirst_def example_defs read_defs set_defs cascade_defs)
  have e2: "deleteImage ?p2 cascadeFirst = Inr cascadeDone"
    by (simp add: cascadeExample_def cascadeFirst_def cascadeDone_def example_defs read_defs
        set_defs cascade_defs)
  have g: "''sha256:r'' \<in> set (deleted cascadeFirst)" "''sha256:p2'' \<notin> set (deleted cascadeFirst)"
    by (simp_all add: cascadeFirst_def)
  note T = C1_shared_child[OF n d u i k f r e1 e2]
  from T have t1: "''sha256:c'' \<notin> set (deleted cascadeFirst)"
    "''sha256:c'' \<notin> set (deleteCalls (calls cascadeFirst))"
    "digestUsedBy cascadeFirst ''sha256:c'' = Some [''sha256:p2'']" by blast+
  from T g(2) have t2: "''sha256:c'' \<in> set (deleted cascadeDone)"
    "''sha256:c'' \<in> set (deleteCalls (calls cascadeDone))"
    "digestUsedBy cascadeDone ''sha256:c'' = None" by blast+
  from l u(1) r0 r e1 e2 g t1 t2 show ?thesis by (intro conjI)
qed

text \<open>
  The claim as stated fails where the referrer tag of \<open>P1\<close> is in use and resolves to
  \<open>P2\<close>: the cascade of lines 346-357 deletes the package the tag resolves to without
  consulting the reference map, and \<^verbatim>\<open>deleteImage\<close> on \<open>P1\<close> alone deletes \<open>C\<close>.
\<close>

theorem C1_referrer_cascade_counterexample:
  "loadDigestUsedByMap referrerIsParent = Inr referrerIsParent \<and>
   digestUsedBy referrerIsParent ''sha256:c'' = Some [''sha256:p1'', ''sha256:p2''] \<and>
   ''sha256:c'' \<notin> set (deleted referrerIsParent) \<and>
   (case deleteImage (version 1 ''sha256:p1'' [''v1'']) referrerIsParent of
      Inl e \<Rightarrow> False
    | Inr s1 \<Rightarrow>
        ''sha256:c'' \<in> set (deleted s1) \<and>
        deleteCalls (calls s1) = [''sha256:p1'', ''sha256:p2'', ''sha256:c''] \<and>
        digestUsedBy s1 ''sha256:c'' = None)"
  by (simp add: referrerIsParent_def example_defs read_defs set_defs cascade_defs load_defs)

text \<open>
  A nested index: the first parent lists the second as a child, recorded with the first
  as its only parent. \<^verbatim>\<open>deleteImage\<close> on the first deletes the second as a child,
  without looking at its manifest; \<^verbatim>\<open>deleteImage\<close> on the second is then stopped by
  the guard of line 288, and the shared child stays.
\<close>

lemma nested_index_example:
  "loadDigestUsedByMap nestedIndex = Inr nestedIndex \<and>
   digestUsedBy nestedIndex ''sha256:c'' = Some [''sha256:p1'', ''sha256:p2''] \<and>
   ''sha256:p2'' \<in> set (childDigests nestedIndex ''sha256:p1'') \<and>
   (case deleteImage (version 1 ''sha256:p1'' [''v1'']) nestedIndex of
      Inl e \<Rightarrow> False
    | Inr s1 \<Rightarrow>
        deleteCalls (calls s1) = [''sha256:p1'', ''sha256:p2''] \<and>
        digestUsedBy s1 ''sha256:c'' = Some [''sha256:p2''] \<and>
        deleteImage (version 2 ''sha256:p2'' []) s1 = Inr s1)"
  by (simp add: nestedIndex_def example_defs read_defs set_defs cascade_defs load_defs)

section \<open>The validator\<close>

lemmas validate_defs = validate_def childDigests_def missingChildren_def startsWith_def

lemma warnedChildren_append [simp]:
  "warnedChildren (xs @ ys) = warnedChildren xs @ warnedChildren ys"
  by (induction xs rule: warnedChildren.induct) auto

lemma walked_cong: "set pr = set pr' \<Longrightarrow> walked s ds pr = walked s ds pr'"
proof (induction ds arbitrary: pr pr')
  case Nil
  then show ?case by simp
next
  case (Cons d ds)
  from Cons.prems have "walked s ds pr = walked s ds pr'" by (rule Cons.IH)
  moreover from Cons.prems
  have "walked s ds (pr @ childDigests s d) = walked s ds (pr' @ childDigests s d)"
    by (intro Cons.IH) simp
  ultimately show ?case using Cons.prems by simp
qed

lemma validateChildren_result:
  "validateChildren s d ts cs (pr, ws) = (pr', ws') \<Longrightarrow>
     set pr' = set pr \<union> digest ` set cs \<and>
     warnedChildren ws' =
       warnedChildren ws @ filter (\<lambda>c. getIdByDigest s c = None) (map digest cs)"
proof (induction cs arbitrary: pr ws)
  case Nil
  then show ?case by simp
next
  case (Cons c cs)
  let ?ws = "if getIdByDigest s (digest c) = None then
          ws @ [if length ts > 0 then NotFoundOnImage (digest c) ts
                else NotFoundOnUntagged (digest c) d]
        else ws"
  from Cons.prems have "validateChildren s d ts cs (setAdd (digest c) pr, ?ws) = (pr', ws')"
    by simp
  from Cons.IH[OF this] show ?case by auto
qed

lemma orphanReferrers_children [simp]: "warnedChildren (orphanReferrers s ts) = []"
  by (induction ts) auto

lemma validateLoop_walk:
  "validateLoop s ds (pr, ws) = Inr (pr', ws') \<Longrightarrow>
     warnedChildren ws' = warnedChildren ws @ concat (map (missingChildren s) (walked s ds pr))"
proof (induction ds arbitrary: pr ws)
  case Nil
  then show ?case by simp
next
  case (Cons d ds)
  show ?case
  proof (cases "d \<in> set pr")
    case True
    with Cons.prems have "validateLoop s ds (pr, ws) = Inr (pr', ws')" by simp
    from Cons.IH[OF this] True show ?thesis by simp
  next
    case False
    with Cons.prems obtain m p where m: "getManifestByDigest s d = Inr m"
      and p: "getPackageByDigest s d = Some p"
      by (auto split: sum.splits option.splits)
    show ?thesis
    proof (cases "manifests m")
      case None
      with Cons.prems False m p have "validateLoop s ds (pr, ws) = Inr (pr', ws')" by simp
      from Cons.IH[OF this] False m None show ?thesis
        by (simp add: missingChildren_def childDigests_def)
    next
      case (Some cs)
      obtain pr1 ws1 where v: "validateChildren s d (tags p) cs (pr, ws) = (pr1, ws1)"
        by (cases "validateChildren s d (tags p) cs (pr, ws)")
      with Cons.prems False m p Some have l: "validateLoop s ds (pr1, ws1) = Inr (pr', ws')"
        by simp
      from validateChildren_result[OF v] m Some
      have s1: "set pr1 = set (pr @ childDigests s d)"
        and w1: "warnedChildren ws1 = warnedChildren ws @ missingChildren s d"
        by (auto simp: childDigests_def missingChildren_def)
      from Cons.IH[OF l] walked_cong[OF s1, of s ds] w1 False show ?thesis by simp
    qed
  qed
qed

text \<open>
  Claim C9, amended. The validator walks the known digests that are not marked as a
  child of an index walked before. For every index it walks it warns once for each entry
  of the child list whose digest the package listing does not know, in order: the
  children warned about are the missing children of the walked digests, one after the
  other. \<^verbatim>\<open>validate\<close> only returns warnings: it changes no set and calls nothing on
  the package service.
\<close>

theorem C9_validate_warnings:
  assumes "validate s = Inr ws"
  shows "warnedChildren ws = concat (map (missingChildren s) (walked s (getDigests s) []))"
proof -
  from assms obtain pr ws0 where l: "validateLoop s (getDigests s) ([], []) = Inr (pr, ws0)"
    and w: "ws = ws0 @ orphanReferrers s (tagsInUse s)"
    by (auto simp: validate_def split: sum.splits prod.splits)
  from validateLoop_walk[OF l] w show ?thesis by simp
qed

theorem C9_validate_warnings_witness:
  "validate twoIndexes = Inr [NotFoundOnImage ''sha256:m'' [''v1''], NotFoundOnImage ''sha256:m'' [''v2'']] \<and>
   walked twoIndexes (getDigests twoIndexes) [] = [''sha256:i1'', ''sha256:i2''] \<and>
   missingChildren twoIndexes ''sha256:i1'' = [''sha256:m''] \<and>
   missingChildren twoIndexes ''sha256:i2'' = [''sha256:m''] \<and>
   warnedChildren [NotFoundOnImage ''sha256:m'' [''v1''], NotFoundOnImage ''sha256:m'' [''v2'']] =
     [''sha256:m'', ''sha256:m'']"
proof -
  have v: "validate twoIndexes =
      Inr [NotFoundOnImage ''sha256:m'' [''v1''], NotFoundOnImage ''sha256:m'' [''v2'']]"
    by (simp add: twoIndexes_def example_defs read_defs set_defs validate_defs)
  have w: "walked twoIndexes (getDigests twoIndexes) [] = [''sha256:i1'', ''sha256:i2'']"
    "missingChildren twoIndexes ''sha256:i1'' = [''sha256:m'']"
    "missingChildren twoIndexes ''sha256:i2'' = [''sha256:m'']"
    by (simp_all add: twoIndexes_def example_defs read_defs set_defs validate_defs)
  from C9_validate_warnings[OF v] v w show ?thesis by simp
qed

text \<open>
  The claim as stated fails: the mark of line 214 is read only for the digest the outer
  loop visits (line 206), never before a warning. The child \<^verbatim>\<open>sha256:m\<close>, missing from
  the listing and listed by two index manifests, is warned about twice.
\<close>

theorem C9_shared_child_warned_twice:
  "getIdByDigest twoIndexes ''sha256:m'' = None \<and>
   childDigests twoIndexes ''sha256:i1'' = [''sha256:m''] \<and>
   childDigests twoIndexes ''sha256:i2'' = [''sha256:m''] \<and>
   validate twoIndexes =
     Inr [NotFoundOnImage ''sha256:m'' [''v1''], NotFoundOnImage ''sha256:m'' [''v2'']]"
  by (simp add: twoIndexes_def example_defs read_defs set_defs validate_defs)

section \<open>The trims of the reload\<close>

subsection \<open>Closed forms of the loops of the reload\<close>

lemma setDelete_filter: "setDelete d xs = filter (\<lambda>x. x \<noteq> d) xs"
  by (induction xs) (auto simp: setDelete_def)

lemma trimManifest_filter:
  "trimManifest m fs = filter (\<lambda>x. x \<notin> set (manifestChildren (Inr m))) fs"
proof (cases "manifests m")
  case None
  then show ?thesis by (simp add: trimManifest_def manifestChildren_def)
next
  case (Some cs)
  have "foldl (\<lambda>acc c. setDelete (digest c) acc) fs cs = filter (\<lambda>x. x \<notin> digest ` set cs) fs"
  proof (induction cs arbitrary: fs)
    case Nil
    then show ?case by simp
  next
    case (Cons c cs)
    have "foldl (\<lambda>acc c. setDelete (digest c) acc) (setDelete (digest c) fs) cs =
            filter (\<lambda>x. x \<notin> digest ` set cs) (setDelete (digest c) fs)"
      by (rule Cons.IH)
    then show ?case by (auto simp: setDelete_filter intro: filter_cong)
  qed
  with Some show ?thesis by (simp add: trimManifest_def manifestChildren_def)
qed

lemma filterSet_update_reads [simp]:
  "getManifestByDigest (s\<lparr>filterSet := x\<rparr>) = getManifestByDigest s"
  "getTagDigest (s\<lparr>filterSet := x\<rparr>) = getTagDigest s"
  "getManifestByTag (s\<lparr>filterSet := x\<rparr>) = getManifestByTag s"
  "getPackageByDigest (s\<lparr>filterSet := x\<rparr>) = getPackageByDigest s"
  "getDigestByTag (s\<lparr>filterSet := x\<rparr>) = getDigestByTag s"
  "getDigests (s\<lparr>filterSet := x\<rparr>) = getDigests s"
  "referrerActive d (s\<lparr>filterSet := x\<rparr>) = referrerActive d s"
  by (simp_all add: fun_eq_iff read_defs referrerActive_def split: sum.splits option.splits)

lemma filterSet_update_targets [simp]:
  "trimTargets (s\<lparr>filterSet := x\<rparr>) = trimTargets s"
  "tooNew (s\<lparr>filterSet := x\<rparr>) = tooNew s"
  "excludeTargets f (s\<lparr>filterSet := x\<rparr>) = excludeTargets f s"
  by (simp_all add: fun_eq_iff trimTargets_def childDigests_def referrerTargets_def tooNew_def notOlder_def
      excludeTargets_def split: sum.splits option.splits)

text \<open>
  The child trim filters the filter set by the targets of the digests it runs over, and
  whether it succeeds does not depend on the filter set.
\<close>

lemma trimLoop_filter:
  "trimLoop ds (s\<lparr>filterSet := x\<rparr>) = Inr s' \<Longrightarrow>
     trimLoop ds (s\<lparr>filterSet := y\<rparr>) =
       Inr (s\<lparr>filterSet := filter (\<lambda>z. z \<notin> (\<Union>d\<in>set ds. set (trimTargets s d))) y\<rparr>)"
proof (induction ds arbitrary: x y)
  case Nil
  then show ?case by simp
next
  case (Cons d ds)
  from Cons.prems obtain m where m: "getManifestByDigest s d = Inr m"
    by (auto split: sum.splits)
  show ?case
  proof (cases "referrerActive d s")
    case False
    with Cons.prems m
    have "trimLoop ds (s\<lparr>filterSet := trimManifest m x\<rparr>) = Inr s'" by simp
    from Cons.IH[OF this, of "trimManifest m y"] False m show ?thesis
      by (simp add: trimManifest_filter trimTargets_def childDigests_def manifestChildren_def
          conj_commute)
  next
    case True
    with Cons.prems m obtain rd rm where rd: "getTagDigest s (referrerTag d) = Inr rd"
      and rm: "getManifestByTag s (referrerTag d) = Inr rm"
      by (auto split: sum.splits)
    with Cons.prems m True
    have "trimLoop ds (s\<lparr>filterSet := trimManifest rm (setDelete rd (trimManifest m x))\<rparr>) = Inr s'"
      by simp
    from Cons.IH[OF this, of "trimManifest rm (setDelete rd (trimManifest m y))"] True m rd rm
    show ?thesis
      by (simp add: trimManifest_filter setDelete_filter trimTargets_def childDigests_def
          referrerTargets_def manifestChildren_def conj_commute conj_left_commute)
  qed
qed

lemma trimLoop_error:
  "trimLoop ds (s\<lparr>filterSet := x\<rparr>) = Inl e \<Longrightarrow> trimLoop ds (s\<lparr>filterSet := y\<rparr>) = Inl e"
proof (induction ds arbitrary: x y)
  case Nil
  then show ?case by simp
next
  case (Cons d ds)
  show ?case
  proof (cases "getManifestByDigest s d")
    case (Inl e')
    with Cons.prems show ?thesis by simp
  next
    case (Inr m)
    show ?thesis
    proof (cases "referrerActive d s")
      case False
      with Cons.prems Inr have "trimLoop ds (s\<lparr>filterSet := trimManifest m x\<rparr>) = Inl e" by simp
      from Cons.IH[OF this, of "trimManifest m y"] False Inr show ?thesis by simp
    next
      case True
      show ?thesis
      proof (cases "getTagDigest s (referrerTag d)")
        case (Inl e')
        with Cons.prems Inr True show ?thesis by simp
      next
        case rd: (Inr rd)
        show ?thesis
        proof (cases "getManifestByTag s (referrerTag d)")
          case (Inl e')
          with Cons.prems Inr True rd show ?thesis by simp
        next
          case rm: (Inr rm)
          with Cons.prems Inr True rd
          have "trimLoop ds (s\<lparr>filterSet := trimManifest rm (setDelete rd (trimManifest m x))\<rparr>) = Inl e"
            by simp
          from Cons.IH[OF this, of "trimManifest rm (setDelete rd (trimManifest m y))"]
            Inr True rd rm show ?thesis by simp
        qed
      qed
    qed
  qed
qed

lemma filterSet_same [simp]: "s\<lparr>filterSet := filterSet s\<rparr> = s"
  by simp

lemma trimChildren_closed:
  assumes "trimChildren s = Inr s'"
  shows "s' = s\<lparr>filterSet := filter (\<lambda>z. z \<notin> allTrimTargets s) (filterSet s)\<rparr>"
    and "trimChildren (s\<lparr>filterSet := y\<rparr>) =
           Inr (s\<lparr>filterSet := filter (\<lambda>z. z \<notin> allTrimTargets s) y\<rparr>)"
proof -
  from assms have a: "trimLoop (getDigests s) (s\<lparr>filterSet := filterSet s\<rparr>) = Inr s'"
    by (simp add: trimChildren_def)
  from trimLoop_filter[OF a, of "filterSet s"] a show
    "s' = s\<lparr>filterSet := filter (\<lambda>z. z \<notin> allTrimTargets s) (filterSet s)\<rparr>"
    by (simp add: allTrimTargets_def)
  from trimLoop_filter[OF a, of y] show "trimChildren (s\<lparr>filterSet := y\<rparr>) =
           Inr (s\<lparr>filterSet := filter (\<lambda>z. z \<notin> allTrimTargets s) y\<rparr>)"
    by (simp add: trimChildren_def allTrimTargets_def)
qed

lemma trimChildren_error:
  assumes "trimChildren s = Inl e"
  shows "trimChildren (s\<lparr>filterSet := y\<rparr>) = Inl e"
proof -
  from assms have "trimLoop (getDigests s) (s\<lparr>filterSet := filterSet s\<rparr>) = Inl e"
    by (simp add: trimChildren_def)
  from trimLoop_error[OF this, of y] show ?thesis by (simp add: trimChildren_def)
qed

lemma exclude_update_reads [simp]:
  "getDigestByTag (s\<lparr>filterSet := x, excludeTags := e\<rparr>) = getDigestByTag s"
  "getDigestByTag (s\<lparr>excludeTags := e\<rparr>) = getDigestByTag s"
  "getPackageByDigest (s\<lparr>excludeTags := e\<rparr>) = getPackageByDigest s"
  by (simp_all add: fun_eq_iff read_defs)

lemma exclude_update_targets [simp]:
  "excludeTargets f (s\<lparr>filterSet := x, excludeTags := e\<rparr>) = excludeTargets f s"
  "excludeTargets f (s\<lparr>excludeTags := e\<rparr>) = excludeTargets f s"
  "tooNew (s\<lparr>excludeTags := e\<rparr>) = tooNew s"
  by (simp_all add: fun_eq_iff excludeTargets_def tooNew_def notOlder_def split: option.splits)

lemma excludeLoop_closed:
  "excludeLoop f ts s =
     s\<lparr>filterSet := filter (\<lambda>z. z \<notin> excludeTargets f s ts) (filterSet s),
       excludeTags := excludeTags s @ filter f ts\<rparr>"
proof (induction ts arbitrary: s)
  case Nil
  then show ?case by (simp add: excludeTargets_def)
next
  case (Cons t ts)
  show ?case
  proof (cases "f t")
    case False
    then have "excludeTargets f s (t # ts) = excludeTargets f s ts"
      by (auto simp: excludeTargets_def)
    with False Cons.IH[of s] show ?thesis by simp
  next
    case True
    let ?fs = "case getDigestByTag s t of None \<Rightarrow> filterSet s
                | Some d \<Rightarrow> if d \<noteq> [] then setDelete d (filterSet s) else filterSet s"
    have "filter (\<lambda>z. z \<notin> excludeTargets f s ts) ?fs =
          filter (\<lambda>z. z \<notin> excludeTargets f s (t # ts)) (filterSet s)"
      using True
      by (auto simp: excludeTargets_def setDelete_filter split: option.splits intro!: filter_cong)
    with True Cons.IH[of "s\<lparr>filterSet := ?fs, excludeTags := excludeTags s @ [t]\<rparr>"]
    show ?thesis by simp
  qed
qed

lemma excludeTrim_closed:
  "excludeTrim wcmatch s =
     s\<lparr>filterSet :=
         filter (\<lambda>z. z \<notin> excludeTargets (excludePattern wcmatch s) s (tagsInUse s)) (filterSet s),
       excludeTags := filter (excludePattern wcmatch s) (tagsInUse s)\<rparr>"
proof (cases "cfg_excludeTags (config s)")
  case None
  then show ?thesis
    by (simp add: excludeTrim_def excludePattern_def excludeTargets_def)
next
  case (Some pat)
  show ?thesis
  proof (cases "pat = []")
    case True
    with Some show ?thesis
      by (simp add: excludeTrim_def excludePattern_def excludeTargets_def)
  next
    case False
    with Some show ?thesis
      by (simp add: excludeTrim_def excludePattern_def excludeLoop_closed)
  qed
qed

lemma notOlder_update [simp]:
  "notOlder (s\<lparr>filterSet := x\<rparr>) = notOlder s"
  "notOlder (s\<lparr>excludeTags := e\<rparr>) = notOlder s"
  by (simp_all add: fun_eq_iff notOlder_def)

lemma ageLoop_closed:
  "ageLoop olderThan ds (s\<lparr>filterSet := x\<rparr>) =
     (if \<forall>d\<in>set ds. getPackageByDigest s d \<noteq> None then
        Inr (s\<lparr>filterSet := filter (\<lambda>z. \<not> (z \<in> set ds \<and> tooNew s olderThan z)) x\<rparr>)
      else Inl TypeError)"
proof (induction ds arbitrary: x)
  case Nil
  then show ?case by simp
next
  case (Cons d ds)
  show ?case
  proof (cases "getPackageByDigest s d")
    case None
    then show ?thesis by simp
  next
    case (Some p)
    show ?thesis
    proof (cases "tooNew s olderThan d")
      case True
      with Some have "ageLoop olderThan (d # ds) (s\<lparr>filterSet := x\<rparr>) =
            ageLoop olderThan ds (s\<lparr>filterSet := setDelete d x\<rparr>)"
        by (auto simp: tooNew_def split: option.splits)
      moreover have "filter (\<lambda>z. \<not> (z \<in> set ds \<and> tooNew s olderThan z)) (setDelete d x) =
            filter (\<lambda>z. \<not> (z \<in> set (d # ds) \<and> tooNew s olderThan z)) x"
        unfolding setDelete_filter filter_filter using True by (intro filter_cong) auto
      ultimately show ?thesis using Cons.IH[of "setDelete d x"] Some by simp
    next
      case False
      with Some have "ageLoop olderThan (d # ds) (s\<lparr>filterSet := x\<rparr>) =
            ageLoop olderThan ds (s\<lparr>filterSet := x\<rparr>)"
        by (auto simp: tooNew_def split: option.splits)
      moreover have "filter (\<lambda>z. \<not> (z \<in> set ds \<and> tooNew s olderThan z)) x =
            filter (\<lambda>z. \<not> (z \<in> set (d # ds) \<and> tooNew s olderThan z)) x"
        using False by (intro filter_cong) auto
      ultimately show ?thesis using Cons.IH[of x] Some by simp
    qed
  qed
qed

lemma ageTrim_known:
  assumes "\<forall>d\<in>set (filterSet s). getPackageByDigest s d \<noteq> None"
  shows "ageTrim s = Inr (s\<lparr>filterSet := filter (\<lambda>z. \<not> agePattern s z) (filterSet s)\<rparr>)"
proof (cases "cfg_olderThan (config s)")
  case None
  then show ?thesis by (simp add: ageTrim_def agePattern_def)
next
  case (Some olderThan)
  show ?thesis
  proof (cases "olderThan = 0")
    case True
    with Some show ?thesis by (simp add: ageTrim_def agePattern_def)
  next
    case False
    have "filter (\<lambda>z. \<not> (z \<in> set (filterSet s) \<and> tooNew s olderThan z)) (filterSet s) =
          filter (\<lambda>z. \<not> tooNew s olderThan z) (filterSet s)"
      by (intro filter_cong) auto
    with ageLoop_closed[where olderThan=olderThan and ds="filterSet s" and s=s and x="filterSet s"] assms Some False
    show ?thesis by (simp add: ageTrim_def agePattern_def)
  qed
qed

lemma ageTrim_closed:
  assumes "ageTrim s = Inr s'"
  shows "s' = s\<lparr>filterSet := filter (\<lambda>z. \<not> agePattern s z) (filterSet s)\<rparr>"
proof (cases "cfg_olderThan (config s)")
  case None
  with assms show ?thesis by (simp add: ageTrim_def agePattern_def)
next
  case (Some olderThan)
  show ?thesis
  proof (cases "olderThan = 0")
    case True
    with Some assms show ?thesis by (simp add: ageTrim_def agePattern_def)
  next
    case False
    have e: "filter (\<lambda>z. \<not> (z \<in> set (filterSet s) \<and> tooNew s olderThan z)) (filterSet s) =
          filter (\<lambda>z. \<not> tooNew s olderThan z) (filterSet s)"
      by (intro filter_cong) auto
    from assms Some False have "ageLoop olderThan (filterSet s) (s\<lparr>filterSet := filterSet s\<rparr>) = Inr s'"
      by (simp add: ageTrim_def)
    with e Some False show ?thesis
      unfolding ageLoop_closed by (simp add: agePattern_def split: if_splits)
  qed
qed

lemma pattern_updates [simp]:
  "agePattern (s\<lparr>filterSet := x\<rparr>) = agePattern s"
  "agePattern (s\<lparr>filterSet := x, excludeTags := e\<rparr>) = agePattern s"
  "excludePattern w (s\<lparr>filterSet := x\<rparr>) = excludePattern w s"
  "allTrimTargets (s\<lparr>filterSet := x\<rparr>) = allTrimTargets s"
  by (simp_all add: fun_eq_iff agePattern_def excludePattern_def allTrimTargets_def tooNew_def notOlder_def
      read_defs split: option.splits)

lemma pattern_updates2 [simp]:
  "excludePattern w (s\<lparr>filterSet := x, excludeTags := e\<rparr>) = excludePattern w s"
  "agePattern (s\<lparr>excludeTags := e\<rparr>) = agePattern s"
  by (simp_all add: fun_eq_iff agePattern_def excludePattern_def tooNew_def notOlder_def
      read_defs split: option.splits)

lemma filter_commute: "filter P (filter Q xs) = filter Q (filter P xs)"
  by (induction xs) auto

lemma known_filter:
  "\<forall>d\<in>set (filterSet s). getPackageByDigest s d \<noteq> None \<Longrightarrow>
   \<forall>d\<in>set (filter P (filterSet s)). getPackageByDigest s d \<noteq> None"
  by simp

subsection \<open>The order of the trims\<close>

lemma set_toSet: "set (toSet acc xs) = set acc \<union> set xs"
  by (induction xs arbitrary: acc) auto

lemma getDigestByTag_known: "getDigestByTag s t = Some d \<Longrightarrow> d \<in> set (getDigests s)"
  by (auto simp: getDigestByTag_def getDigests_def set_toSet find_Some_iff)

lemma registry_errors:
  "getManifestByDigest s d = Inl e \<Longrightarrow> e = NotFound"
  "getTagDigest s t = Inl e \<Longrightarrow> e = NotFound"
  "getManifestByTag s t = Inl e \<Longrightarrow> e = NotFound"
  by (auto simp: getManifestByDigest_def getTagDigest_def getManifestByTag_def
      split: option.splits sum.splits)

lemma fetchable_filterSet [simp]: "fetchable (s\<lparr>filterSet := x\<rparr>) = fetchable s"
  by (simp add: fun_eq_iff fetchable_def)

lemma trimLoop_result:
  "trimLoop ds (s\<lparr>filterSet := x\<rparr>) =
     (if \<forall>d\<in>set ds. fetchable s d then
        Inr (s\<lparr>filterSet := filter (\<lambda>z. z \<notin> (\<Union>d\<in>set ds. set (trimTargets s d))) x\<rparr>)
      else Inl NotFound)"
proof (cases "\<forall>d\<in>set ds. fetchable s d")
  case True
  then have "\<exists>s'. trimLoop ds (s\<lparr>filterSet := x\<rparr>) = Inr s'"
  proof (induction ds arbitrary: x)
    case Nil
    then show ?case by simp
  next
    case (Cons d ds)
    from Cons.prems obtain m where m: "getManifestByDigest s d = Inr m"
      by (cases "getManifestByDigest s d") (auto simp: fetchable_def)
    show ?case
    proof (cases "referrerActive d s")
      case False
      from Cons.IH[of "trimManifest m x"] Cons.prems False m show ?thesis by simp
    next
      case True
      with Cons.prems obtain rd rm where "getTagDigest s (referrerTag d) = Inr rd"
        "getManifestByTag s (referrerTag d) = Inr rm"
        by (cases "getTagDigest s (referrerTag d)"; cases "getManifestByTag s (referrerTag d)")
          (auto simp: fetchable_def)
      with Cons.IH[of "trimManifest rm (setDelete rd (trimManifest m x))"] Cons.prems True m
      show ?thesis by simp
    qed
  qed
  then obtain s' where "trimLoop ds (s\<lparr>filterSet := x\<rparr>) = Inr s'" by blast
  from trimLoop_filter[OF this, of x] True show ?thesis by simp
next
  case False
  then have "trimLoop ds (s\<lparr>filterSet := x\<rparr>) = Inl NotFound"
  proof (induction ds arbitrary: x)
    case Nil
    then show ?case by simp
  next
    case (Cons d ds)
    show ?case
    proof (cases "fetchable s d")
      case f: False
      show ?thesis
      proof (cases "getManifestByDigest s d")
        case (Inl e)
        with registry_errors(1)[OF Inl] show ?thesis by simp
      next
        case (Inr m)
        with f have a: "referrerActive d s" by (auto simp: fetchable_def)
        show ?thesis
        proof (cases "getTagDigest s (referrerTag d)")
          case (Inl e)
          with registry_errors(2)[OF Inl] Inr a show ?thesis by simp
        next
          case rd: (Inr rd)
          with f Inr a obtain e where e: "getManifestByTag s (referrerTag d) = Inl e"
            by (cases "getManifestByTag s (referrerTag d)") (auto simp: fetchable_def)
          with registry_errors(3)[OF e] Inr a rd show ?thesis by simp
        qed
      qed
    next
      case t: True
      with Cons.prems have r: "\<not> (\<forall>d\<in>set ds. fetchable s d)" by simp
      from t obtain m where m: "getManifestByDigest s d = Inr m"
        by (cases "getManifestByDigest s d") (auto simp: fetchable_def)
      show ?thesis
      proof (cases "referrerActive d s")
        case False
        from Cons.IH[OF r, of "trimManifest m x"] False m show ?thesis by simp
      next
        case True
        with t obtain rd rm where "getTagDigest s (referrerTag d) = Inr rd"
          "getManifestByTag s (referrerTag d) = Inr rm"
          by (cases "getTagDigest s (referrerTag d)"; cases "getManifestByTag s (referrerTag d)")
            (auto simp: fetchable_def)
        with Cons.IH[OF r, of "trimManifest rm (setDelete rd (trimManifest m x))"] True m
        show ?thesis by simp
      qed
    qed
  qed
  with False show ?thesis by simp
qed

lemma trimChildren_result:
  "trimChildren (s\<lparr>filterSet := x\<rparr>) =
     (if \<forall>d\<in>set (getDigests s). fetchable s d then
        Inr (s\<lparr>filterSet := filter (\<lambda>z. z \<notin> allTrimTargets s) x\<rparr>)
      else Inl NotFound)"
  by (simp add: trimChildren_def trimLoop_result allTrimTargets_def)


lemma excludedMatch_iff:
  "excludedMatch wcmatch s =
     (\<forall>t\<in>set (excludeTags s). t \<in> set (tagsInUse s) \<longrightarrow> excludePattern wcmatch s t)"
  by (auto simp: excludedMatch_def list_all_iff)

lemma tagsAgree_iff:
  "tagsAgree wcmatch s =
     (\<forall>d\<in>set (getDigests s).
        referrerTag d \<in> set (tagsInUse s) \<longrightarrow> excludePattern wcmatch s (referrerTag d) \<longrightarrow>
        (\<exists>rd. rd \<noteq> [] \<and> getTagDigest s (referrerTag d) = Inr rd \<and>
              getDigestByTag s (referrerTag d) = Some rd))"
proof -
  have "\<And>t. (case getTagDigest s t of Inl e \<Rightarrow> False
                  | Inr d \<Rightarrow> d \<noteq> [] \<and> getDigestByTag s t = Some d) =
             (\<exists>d. d \<noteq> [] \<and> getTagDigest s t = Inr d \<and> getDigestByTag s t = Some d)"
    by (case_tac "getTagDigest s t") auto
  then show ?thesis by (auto simp: tagsAgree_def list_all_iff)
qed

lemma excludeTags_update_reads [simp]:
  "getManifestByDigest (s\<lparr>excludeTags := e\<rparr>) = getManifestByDigest s"
  "getTagDigest (s\<lparr>excludeTags := e\<rparr>) = getTagDigest s"
  "getManifestByTag (s\<lparr>excludeTags := e\<rparr>) = getManifestByTag s"
  "getDigests (s\<lparr>excludeTags := e\<rparr>) = getDigests s"
  "childDigests (s\<lparr>excludeTags := e\<rparr>) = childDigests s"
  "referrerTargets (s\<lparr>excludeTags := e\<rparr>) = referrerTargets s"
  "excludePattern wcmatch (s\<lparr>excludeTags := e\<rparr>) = excludePattern wcmatch s"
  "referrerActive d (s\<lparr>excludeTags := e\<rparr>) =
     (referrerTag d \<in> set (tagsInUse s) \<and> referrerTag d \<notin> set e)"
  by (simp_all add: fun_eq_iff read_defs childDigests_def referrerTargets_def excludePattern_def
      referrerActive_def split: sum.splits option.splits)

text \<open>What agreement on an excluded referrer tag gives.\<close>

lemma referrer_agree:
  assumes "tagsAgree wcmatch s" and "d \<in> set (getDigests s)"
    and "referrerTag d \<in> set (tagsInUse s)" and "excludePattern wcmatch s (referrerTag d)"
  obtains rd where "rd \<noteq> []" "getTagDigest s (referrerTag d) = Inr rd"
    "getDigestByTag s (referrerTag d) = Some rd" "rd \<in> set (getDigests s)"
    "getManifestByTag s (referrerTag d) = getManifestByDigest s rd"
proof -
  from assms obtain rd where rd: "rd \<noteq> []" "getTagDigest s (referrerTag d) = Inr rd"
    "getDigestByTag s (referrerTag d) = Some rd"
    unfolding tagsAgree_iff by blast
  from rd(3) have "rd \<in> set (getDigests s)" by (rule getDigestByTag_known)
  moreover from rd(2) have "getManifestByTag s (referrerTag d) = getManifestByDigest s rd"
    by (simp add: getManifestByTag_def)
  ultimately show ?thesis using rd that by blast
qed

text \<open>
  With the excluded tags computed, the referrer part of the child trim is active at
  fewer digests, and the child trim fails in the same cases.
\<close>

lemma active_excluded:
  assumes stale: "excludedMatch wcmatch s"
    and a: "referrerActive d (s\<lparr>excludeTags := filter (excludePattern wcmatch s) (tagsInUse s)\<rparr>)"
  shows "referrerActive d s" and "\<not> excludePattern wcmatch s (referrerTag d)"
proof -
  from a have u: "referrerTag d \<in> set (tagsInUse s)"
    and n: "\<not> excludePattern wcmatch s (referrerTag d)" by simp_all
  from stale u n have "referrerTag d \<notin> set (excludeTags s)"
    unfolding excludedMatch_iff by blast
  with u show "referrerActive d s" by (simp add: referrerActive_def)
  from n show "\<not> excludePattern wcmatch s (referrerTag d)" .
qed

lemma fetchable_excluded:
  assumes agree: "tagsAgree wcmatch s" and stale: "excludedMatch wcmatch s"
  shows "(\<forall>d\<in>set (getDigests s).
            fetchable (s\<lparr>excludeTags := filter (excludePattern wcmatch s) (tagsInUse s)\<rparr>) d) =
         (\<forall>d\<in>set (getDigests s). fetchable s d)"
    (is "(\<forall>d\<in>?K. fetchable ?sE d) = (\<forall>d\<in>?K. fetchable s d)")
proof
  assume l: "\<forall>d\<in>?K. fetchable ?sE d"
  then have m: "\<forall>d\<in>?K. \<not> isl (getManifestByDigest s d)" by (simp add: fetchable_def)
  show "\<forall>d\<in>?K. fetchable s d"
  proof
    fix d assume d: "d \<in> ?K"
    have "referrerActive d s \<longrightarrow>
         \<not> isl (getTagDigest s (referrerTag d)) \<and> \<not> isl (getManifestByTag s (referrerTag d))"
    proof
      assume a: "referrerActive d s"
      then have u: "referrerTag d \<in> set (tagsInUse s)" by (simp add: referrerActive_def)
      show "\<not> isl (getTagDigest s (referrerTag d)) \<and> \<not> isl (getManifestByTag s (referrerTag d))"
      proof (cases "excludePattern wcmatch s (referrerTag d)")
        case True
        from referrer_agree[OF agree d u True] obtain rd where
          rd: "getTagDigest s (referrerTag d) = Inr rd" "rd \<in> set (getDigests s)"
            "getManifestByTag s (referrerTag d) = getManifestByDigest s rd"
          by blast
        with m show ?thesis by simp
      next
        case False
        with u have "referrerActive d ?sE" by simp
        with l d show ?thesis by (simp add: fetchable_def)
      qed
    qed
    with m d show "fetchable s d" by (simp add: fetchable_def)
  qed
next
  assume r: "\<forall>d\<in>?K. fetchable s d"
  show "\<forall>d\<in>?K. fetchable ?sE d"
  proof
    fix d assume d: "d \<in> ?K"
    with r have f: "fetchable s d" by blast
    have "referrerActive d ?sE \<longrightarrow>
         \<not> isl (getTagDigest s (referrerTag d)) \<and> \<not> isl (getManifestByTag s (referrerTag d))"
    proof
      assume "referrerActive d ?sE"
      from active_excluded(1)[OF stale this] f
      show "\<not> isl (getTagDigest s (referrerTag d)) \<and> \<not> isl (getManifestByTag s (referrerTag d))"
        by (simp add: fetchable_def)
    qed
    with f show "fetchable ?sE d" by (simp add: fetchable_def)
  qed
qed

text \<open>
  Where registry and listing agree on the excluded referrer tags, the child trim and the
  exclude trim take the same digests out of the filter set in either order.
\<close>

lemma targets_agree:
  assumes agree: "tagsAgree wcmatch s" and stale: "excludedMatch wcmatch s"
  shows "allTrimTargets s \<union> excludeTargets (excludePattern wcmatch s) s (tagsInUse s) =
         allTrimTargets (s\<lparr>excludeTags := filter (excludePattern wcmatch s) (tagsInUse s)\<rparr>) \<union>
         excludeTargets (excludePattern wcmatch s) s (tagsInUse s)"
    (is "?T \<union> ?X = ?TE \<union> ?X")
proof (intro equalityI subsetI)
  let ?sE = "s\<lparr>excludeTags := filter (excludePattern wcmatch s) (tagsInUse s)\<rparr>"
  fix z assume "z \<in> ?T \<union> ?X"
  then consider "z \<in> ?X" | d where "d \<in> set (getDigests s)" "z \<in> set (trimTargets s d)"
    by (auto simp: allTrimTargets_def)
  then show "z \<in> ?TE \<union> ?X"
  proof cases
    case 1
    then show ?thesis by blast
  next
    case 2
    show ?thesis
    proof (cases "z \<in> set (childDigests s d)")
      case True
      with 2(1) have "z \<in> ?TE" by (auto simp: allTrimTargets_def trimTargets_def)
      then show ?thesis by blast
    next
      case False
      with 2(2) have a: "referrerActive d s" and z: "z \<in> set (referrerTargets s d)"
        by (auto simp: trimTargets_def split: if_splits)
      from a have u: "referrerTag d \<in> set (tagsInUse s)" by (simp add: referrerActive_def)
      show ?thesis
      proof (cases "excludePattern wcmatch s (referrerTag d)")
        case n: False
        with u have "referrerActive d ?sE" by simp
        with z have "z \<in> set (trimTargets ?sE d)" by (simp add: trimTargets_def)
        with 2(1) have "z \<in> ?TE" by (auto simp: allTrimTargets_def)
        then show ?thesis by blast
      next
        case p: True
        from referrer_agree[OF agree 2(1) u p] obtain rd where
          rd: "rd \<noteq> []" "getTagDigest s (referrerTag d) = Inr rd"
            "getDigestByTag s (referrerTag d) = Some rd" "rd \<in> set (getDigests s)"
            "getManifestByTag s (referrerTag d) = getManifestByDigest s rd"
          by blast
        from z rd(2,5) have "z = rd \<or> z \<in> set (childDigests s rd)"
          by (simp add: referrerTargets_def childDigests_def manifestChildren_def)
        then show ?thesis
        proof
          assume "z = rd"
          with rd(1,3) p u have "z \<in> ?X" by (auto simp: excludeTargets_def)
          then show ?thesis by blast
        next
          assume "z \<in> set (childDigests s rd)"
          with rd(4) have "z \<in> ?TE" by (auto simp: allTrimTargets_def trimTargets_def)
          then show ?thesis by blast
        qed
      qed
    qed
  qed
next
  let ?sE = "s\<lparr>excludeTags := filter (excludePattern wcmatch s) (tagsInUse s)\<rparr>"
  fix z assume "z \<in> ?TE \<union> ?X"
  then consider "z \<in> ?X" | d where "d \<in> set (getDigests s)" "z \<in> set (trimTargets ?sE d)"
    by (auto simp: allTrimTargets_def)
  then show "z \<in> ?T \<union> ?X"
  proof cases
    case 1
    then show ?thesis by blast
  next
    case 2
    have "z \<in> set (trimTargets s d)"
    proof (cases "referrerActive d ?sE")
      case True
      from active_excluded(1)[OF stale True] True 2(2) show ?thesis
        by (simp add: trimTargets_def)
    next
      case False
      with 2(2) show ?thesis by (auto simp: trimTargets_def)
    qed
    with 2(1) have "z \<in> ?T" by (auto simp: allTrimTargets_def)
    then show ?thesis by blast
  qed
qed

lemma filter_two: "filter P (filter Q xs) = filter (\<lambda>z. Q z \<and> P z) xs"
  by (induction xs) auto

lemma child_exclude_commute:
  assumes agree: "tagsAgree wcmatch s" and stale: "excludedMatch wcmatch s"
  shows "andThen (trimChildren s) (\<lambda>s1. Inr (excludeTrim wcmatch s1)) =
         trimChildren (excludeTrim wcmatch s)"
proof -
  let ?E = "filter (excludePattern wcmatch s) (tagsInUse s)"
  let ?X = "excludeTargets (excludePattern wcmatch s) s (tagsInUse s)"
  let ?sE = "s\<lparr>excludeTags := ?E\<rparr>"
  have ex: "excludeTrim wcmatch s = ?sE\<lparr>filterSet := filter (\<lambda>z. z \<notin> ?X) (filterSet s)\<rparr>"
    by (simp add: excludeTrim_closed)
  have l: "trimChildren s =
     (if \<forall>d\<in>set (getDigests s). fetchable s d then
        Inr (s\<lparr>filterSet := filter (\<lambda>z. z \<notin> allTrimTargets s) (filterSet s)\<rparr>)
      else Inl NotFound)"
    using trimChildren_result[where s=s and x="filterSet s"] by simp
  have r: "trimChildren (excludeTrim wcmatch s) =
     (if \<forall>d\<in>set (getDigests s). fetchable ?sE d then
        Inr (?sE\<lparr>filterSet := filter (\<lambda>z. z \<notin> allTrimTargets ?sE)
                                  (filter (\<lambda>z. z \<notin> ?X) (filterSet s))\<rparr>)
      else Inl NotFound)"
    unfolding ex using trimChildren_result[where s="?sE" and x="filter (\<lambda>z. z \<notin> ?X) (filterSet s)"] by simp
  have f: "(\<forall>d\<in>set (getDigests s). fetchable ?sE d) = (\<forall>d\<in>set (getDigests s). fetchable s d)"
    by (rule fetchable_excluded[OF agree stale])
  show ?thesis
  proof (cases "\<forall>d\<in>set (getDigests s). fetchable s d")
    case False
    with l r f show ?thesis by (simp add: andThen_def)
  next
    case True
    from targets_agree[OF agree stale]
    have "\<And>z. (z \<notin> allTrimTargets s \<and> z \<notin> ?X) = (z \<notin> ?X \<and> z \<notin> allTrimTargets ?sE)"
      by blast
    then have e: "filter (\<lambda>z. z \<notin> ?X) (filter (\<lambda>z. z \<notin> allTrimTargets s) (filterSet s)) =
        filter (\<lambda>z. z \<notin> allTrimTargets ?sE) (filter (\<lambda>z. z \<notin> ?X) (filterSet s))"
      unfolding filter_two by simp
    have "excludeTrim wcmatch (s\<lparr>filterSet := filter (\<lambda>z. z \<notin> allTrimTargets s) (filterSet s)\<rparr>) =
        ?sE\<lparr>filterSet := filter (\<lambda>z. z \<notin> ?X) (filter (\<lambda>z. z \<notin> allTrimTargets s) (filterSet s))\<rparr>"
      by (simp add: excludeTrim_closed)
    with True l r f e show ?thesis by (simp add: andThen_def)
  qed
qed

text \<open>
  Where they agree, the digest behind every referrer tag in use is gone after the two
  trims, whether the tag is excluded or not.
\<close>

lemma referrer_digest_trimmed:
  assumes agree: "tagsAgree wcmatch s" and stale: "excludedMatch wcmatch s"
    and t: "trimChildren s = Inr s1"
    and d: "d \<in> set (getDigests s)" "referrerTag d \<in> set (tagsInUse s)"
      "getTagDigest s (referrerTag d) = Inr rd"
  shows "rd \<notin> set (filterSet (excludeTrim wcmatch s1))"
proof -
  let ?X = "excludeTargets (excludePattern wcmatch s) s (tagsInUse s)"
  from trimChildren_closed(1)[OF t]
  have s1: "s1 = s\<lparr>filterSet := filter (\<lambda>z. z \<notin> allTrimTargets s) (filterSet s)\<rparr>" .
  have fs: "filterSet (excludeTrim wcmatch s1) =
      filter (\<lambda>z. z \<notin> ?X) (filter (\<lambda>z. z \<notin> allTrimTargets s) (filterSet s))"
    unfolding s1 by (simp add: excludeTrim_closed)
  have "rd \<in> allTrimTargets s \<or> rd \<in> ?X"
  proof (cases "referrerTag d \<in> set (excludeTags s)")
    case False
    with d(2) have "referrerActive d s" by (simp add: referrerActive_def)
    with d(3) have "rd \<in> set (trimTargets s d)" by (simp add: trimTargets_def referrerTargets_def)
    with d(1) have "rd \<in> allTrimTargets s" by (auto simp: allTrimTargets_def)
    then show ?thesis by blast
  next
    case True
    with stale d(2) have p: "excludePattern wcmatch s (referrerTag d)"
      unfolding excludedMatch_iff by blast
    from referrer_agree[OF agree d(1,2) p] d(3) have "rd \<noteq> []" "getDigestByTag s (referrerTag d) = Some rd"
      by auto
    with p d(2) have "rd \<in> ?X" by (auto simp: excludeTargets_def)
    then show ?thesis by blast
  qed
  then show ?thesis unfolding fs by auto
qed


lemma knownSet_iff: "knownSet s = (\<forall>d\<in>set (filterSet s). getPackageByDigest s d \<noteq> None)"
  by (simp add: knownSet_def list_all_iff)

lemma child_age_commute:
  assumes "knownSet s"
  shows "andThen (trimChildren s) ageTrim = andThen (ageTrim s) trimChildren"
proof -
  from assms have known: "\<forall>d\<in>set (filterSet s). getPackageByDigest s d \<noteq> None"
    by (simp add: knownSet_iff)
  let ?A = "filter (\<lambda>z. \<not> agePattern s z) (filterSet s)"
  note a = ageTrim_known[OF known]
  show ?thesis
  proof (cases "trimChildren s")
    case (Inl e)
    from trimChildren_error[OF Inl, of ?A] Inl a show ?thesis by (simp add: andThen_def)
  next
    case (Inr s1)
    note c = trimChildren_closed[OF Inr]
    from known c(1) have "\<forall>d\<in>set (filterSet s1). getPackageByDigest s1 d \<noteq> None" by simp
    from ageTrim_known[OF this] c(1) c(2)[of ?A] a Inr show ?thesis
      by (simp add: andThen_def conj_commute)
  qed
qed

lemma exclude_age_commute:
  assumes "knownSet s"
  shows "ageTrim (excludeTrim wcmatch s) = andThen (ageTrim s) (excludeStep wcmatch)"
proof -
  from assms have known: "\<forall>d\<in>set (filterSet s). getPackageByDigest s d \<noteq> None"
    by (simp add: knownSet_iff)
  have "\<forall>d\<in>set (filterSet (excludeTrim wcmatch s)).
          getPackageByDigest (excludeTrim wcmatch s) d \<noteq> None"
    using known by (simp add: excludeTrim_closed)
  from ageTrim_known[OF this] ageTrim_known[OF known]
  show ?thesis
    by (simp add: andThen_def excludeStep_def excludeTrim_closed conj_commute)
qed

lemma trims_keep:
  "trimChildren s = Inr s1 \<Longrightarrow> knownSet s \<Longrightarrow> knownSet s1"
  "knownSet s \<Longrightarrow> knownSet (excludeTrim wcmatch s)"
  by (auto simp: knownSet_iff excludeTrim_closed dest!: trimChildren_closed(1))

lemma inOrder3:
  "inOrder [f, g, h] s = andThen (andThen (f s) g) h"
  by (simp add: inOrder_def andThen_def)

lemma andThen_Inl [simp]: "andThen (Inl e) f = Inl e"
  by (simp add: andThen_def)

lemma andThen_Inr [simp]: "andThen (Inr x) f = f x"
  by (simp add: andThen_def)

lemma excludeStep_then [simp]: "andThen (excludeStep wcmatch s) f = f (excludeTrim wcmatch s)"
  by (simp add: excludeStep_def)

text \<open>All six orders of the three trims.\<close>

lemma trims_any_order:
  assumes known: "knownSet s" and agree: "tagsAgree wcmatch s" and stale: "excludedMatch wcmatch s"
  shows "inOrder [excludeStep wcmatch, trimChildren, ageTrim] s =
           inOrder [trimChildren, excludeStep wcmatch, ageTrim] s"
    and "inOrder [trimChildren, ageTrim, excludeStep wcmatch] s =
           inOrder [trimChildren, excludeStep wcmatch, ageTrim] s"
    and "inOrder [ageTrim, trimChildren, excludeStep wcmatch] s =
           inOrder [trimChildren, excludeStep wcmatch, ageTrim] s"
    and "inOrder [excludeStep wcmatch, ageTrim, trimChildren] s =
           inOrder [trimChildren, excludeStep wcmatch, ageTrim] s"
    and "inOrder [ageTrim, excludeStep wcmatch, trimChildren] s =
           inOrder [trimChildren, excludeStep wcmatch, ageTrim] s"
proof -
  let ?X = "excludeStep wcmatch"
  have cx: "trimChildren (excludeTrim wcmatch s) = andThen (trimChildren s) ?X"
    using child_exclude_commute[OF agree stale] by (simp add: excludeStep_def[abs_def])
  show 2: "inOrder [?X, trimChildren, ageTrim] s = inOrder [trimChildren, ?X, ageTrim] s"
    by (simp add: inOrder3 cx)
  show 3: "inOrder [trimChildren, ageTrim, ?X] s = inOrder [trimChildren, ?X, ageTrim] s"
  proof (cases "trimChildren s")
    case (Inl e)
    then show ?thesis by (simp add: inOrder3)
  next
    case (Inr s1)
    from trims_keep(1)[OF Inr known] have "knownSet s1" .
    from exclude_age_commute[OF this, of wcmatch] Inr show ?thesis by (simp add: inOrder3)
  qed
  show 4: "inOrder [ageTrim, trimChildren, ?X] s = inOrder [trimChildren, ?X, ageTrim] s"
    using child_age_commute[OF known] 3 by (simp add: inOrder3)
  from trims_keep(2)[OF known] have "knownSet (excludeTrim wcmatch s)" .
  from child_age_commute[OF this]
  show 5: "inOrder [?X, ageTrim, trimChildren] s = inOrder [trimChildren, ?X, ageTrim] s"
    using 2 by (simp add: inOrder3)
  show "inOrder [ageTrim, ?X, trimChildren] s = inOrder [trimChildren, ?X, ageTrim] s"
    using exclude_age_commute[OF known, of wcmatch] 5 by (simp add: inOrder3)
qed

lemma reload_inOrder:
  "reload wcmatch s =
     andThen (loadDigestUsedByMap (reloadStart s))
       (inOrder [trimChildren, excludeStep wcmatch, ageTrim])"
  by (simp add: reload_def inOrder3 andThen_def excludeStep_def split: sum.splits)


lemma excludeTrim_matches: "excludedMatch wcmatch (excludeTrim wcmatch s)"
  by (simp add: excludedMatch_iff excludeTrim_closed)

text \<open>
  Claim C6, amended. On a state whose filter set holds only digests of the loaded
  listing, each of the three trims is idempotent, and the age trim commutes with the
  child trim and with the exclude-tag trim. The exclude-tag trim leaves in
  \<^verbatim>\<open>excludeTags\<close> only tags its pattern matches. Where, moreover, registry and listing
  agree on the tags in use and \<^verbatim>\<open>excludeTags\<close> holds no tag in use that the pattern
  does not match, the child trim and the exclude-tag trim commute, all six orders of
  the three trims give the result of the order of \<^verbatim>\<open>reload\<close>, filter set and
  \<^verbatim>\<open>excludeTags\<close> alike, failure included; and the digest behind every referrer tag in
  use of a known digest is gone from the filter set after the child trim and the
  exclude-tag trim, whether the tag is excluded or not.
\<close>

theorem C6_trims:
  assumes known: "knownSet s"
  shows "(\<forall>s1. trimChildren s = Inr s1 \<longrightarrow> trimChildren s1 = Inr s1) \<and>
         excludeTrim wcmatch (excludeTrim wcmatch s) = excludeTrim wcmatch s \<and>
         (\<forall>s1. ageTrim s = Inr s1 \<longrightarrow> ageTrim s1 = Inr s1) \<and>
         andThen (trimChildren s) ageTrim = andThen (ageTrim s) trimChildren \<and>
         andThen (excludeStep wcmatch s) ageTrim = andThen (ageTrim s) (excludeStep wcmatch) \<and>
         excludedMatch wcmatch (excludeTrim wcmatch s) \<and>
         (tagsAgree wcmatch s \<and> excludedMatch wcmatch s \<longrightarrow>
            andThen (trimChildren s) (excludeStep wcmatch) =
              andThen (excludeStep wcmatch s) trimChildren \<and>
            inOrder [excludeStep wcmatch, trimChildren, ageTrim] s =
              inOrder [trimChildren, excludeStep wcmatch, ageTrim] s \<and>
            inOrder [trimChildren, ageTrim, excludeStep wcmatch] s =
              inOrder [trimChildren, excludeStep wcmatch, ageTrim] s \<and>
            inOrder [ageTrim, trimChildren, excludeStep wcmatch] s =
              inOrder [trimChildren, excludeStep wcmatch, ageTrim] s \<and>
            inOrder [excludeStep wcmatch, ageTrim, trimChildren] s =
              inOrder [trimChildren, excludeStep wcmatch, ageTrim] s \<and>
            inOrder [ageTrim, excludeStep wcmatch, trimChildren] s =
              inOrder [trimChildren, excludeStep wcmatch, ageTrim] s \<and>
            (\<forall>s1 d rd. trimChildren s = Inr s1 \<and> d \<in> set (getDigests s) \<and>
               referrerTag d \<in> set (tagsInUse s) \<and> getTagDigest s (referrerTag d) = Inr rd \<longrightarrow>
               rd \<notin> set (filterSet (excludeTrim wcmatch s1))))"
proof -
  from known have k: "\<forall>d\<in>set (filterSet s). getPackageByDigest s d \<noteq> None"
    by (simp add: knownSet_iff)
  have 1: "\<forall>s1. trimChildren s = Inr s1 \<longrightarrow> trimChildren s1 = Inr s1"
  proof (intro allI impI)
    fix s1 assume t: "trimChildren s = Inr s1"
    note c = trimChildren_closed[OF t]
    from c(2)[of "filter (\<lambda>z. z \<notin> allTrimTargets s) (filterSet s)"] c(1)
    show "trimChildren s1 = Inr s1" by simp
  qed
  have 2: "excludeTrim wcmatch (excludeTrim wcmatch s) = excludeTrim wcmatch s"
    by (simp add: excludeTrim_closed)
  have 3: "\<forall>s1. ageTrim s = Inr s1 \<longrightarrow> ageTrim s1 = Inr s1"
  proof (intro allI impI)
    fix s1 assume a: "ageTrim s = Inr s1"
    note c = ageTrim_closed[OF a]
    from k c have "\<forall>d\<in>set (filterSet s1). getPackageByDigest s1 d \<noteq> None" by simp
    from ageTrim_known[OF this] c show "ageTrim s1 = Inr s1" by simp
  qed
  have 4: "andThen (trimChildren s) ageTrim = andThen (ageTrim s) trimChildren"
    by (rule child_age_commute[OF known])
  have 5: "andThen (excludeStep wcmatch s) ageTrim = andThen (ageTrim s) (excludeStep wcmatch)"
    using exclude_age_commute[OF known, of wcmatch] by simp
  have 6: "tagsAgree wcmatch s \<and> excludedMatch wcmatch s \<longrightarrow>
            andThen (trimChildren s) (excludeStep wcmatch) =
              andThen (excludeStep wcmatch s) trimChildren \<and>
            inOrder [excludeStep wcmatch, trimChildren, ageTrim] s =
              inOrder [trimChildren, excludeStep wcmatch, ageTrim] s \<and>
            inOrder [trimChildren, ageTrim, excludeStep wcmatch] s =
              inOrder [trimChildren, excludeStep wcmatch, ageTrim] s \<and>
            inOrder [ageTrim, trimChildren, excludeStep wcmatch] s =
              inOrder [trimChildren, excludeStep wcmatch, ageTrim] s \<and>
            inOrder [excludeStep wcmatch, ageTrim, trimChildren] s =
              inOrder [trimChildren, excludeStep wcmatch, ageTrim] s \<and>
            inOrder [ageTrim, excludeStep wcmatch, trimChildren] s =
              inOrder [trimChildren, excludeStep wcmatch, ageTrim] s \<and>
            (\<forall>s1 d rd. trimChildren s = Inr s1 \<and> d \<in> set (getDigests s) \<and>
               referrerTag d \<in> set (tagsInUse s) \<and> getTagDigest s (referrerTag d) = Inr rd \<longrightarrow>
               rd \<notin> set (filterSet (excludeTrim wcmatch s1)))"
  proof
    assume h: "tagsAgree wcmatch s \<and> excludedMatch wcmatch s"
    then have agree: "tagsAgree wcmatch s" and stale: "excludedMatch wcmatch s" by simp_all
    have a: "andThen (trimChildren s) (excludeStep wcmatch) =
              andThen (excludeStep wcmatch s) trimChildren"
      using child_exclude_commute[OF agree stale] by (simp add: excludeStep_def[abs_def])
    note o = trims_any_order[OF known agree stale]
    have r: "\<forall>s1 d rd. trimChildren s = Inr s1 \<and> d \<in> set (getDigests s) \<and>
               referrerTag d \<in> set (tagsInUse s) \<and> getTagDigest s (referrerTag d) = Inr rd \<longrightarrow>
               rd \<notin> set (filterSet (excludeTrim wcmatch s1))"
      using referrer_digest_trimmed[OF agree stale] by blast
    from a o r show "andThen (trimChildren s) (excludeStep wcmatch) =
              andThen (excludeStep wcmatch s) trimChildren \<and>
            inOrder [excludeStep wcmatch, trimChildren, ageTrim] s =
              inOrder [trimChildren, excludeStep wcmatch, ageTrim] s \<and>
            inOrder [trimChildren, ageTrim, excludeStep wcmatch] s =
              inOrder [trimChildren, excludeStep wcmatch, ageTrim] s \<and>
            inOrder [ageTrim, trimChildren, excludeStep wcmatch] s =
              inOrder [trimChildren, excludeStep wcmatch, ageTrim] s \<and>
            inOrder [excludeStep wcmatch, ageTrim, trimChildren] s =
              inOrder [trimChildren, excludeStep wcmatch, ageTrim] s \<and>
            inOrder [ageTrim, excludeStep wcmatch, trimChildren] s =
              inOrder [trimChildren, excludeStep wcmatch, ageTrim] s \<and>
            (\<forall>s1 d rd. trimChildren s = Inr s1 \<and> d \<in> set (getDigests s) \<and>
               referrerTag d \<in> set (tagsInUse s) \<and> getTagDigest s (referrerTag d) = Inr rd \<longrightarrow>
               rd \<notin> set (filterSet (excludeTrim wcmatch s1)))"
      by (intro conjI)
  qed
  note 7 = excludeTrim_matches[of wcmatch s]
  from 1 2 3 4 5 7 6 show ?thesis by (intro conjI)
qed

lemmas trim_defs =
  trimStart_def trimFresh_def knownSet_def tagsAgree_def excludedMatch_def excludePattern_def
  inOrder_def excludeStep_def andThen_def

theorem C6_trims_witness:
  "loadDigestUsedByMap (reloadStart (trimFresh ''sha256:r'')) = Inr (trimStart ''sha256:r'') \<and>
   knownSet (trimStart ''sha256:r'') \<and> tagsAgree literalMatch (trimStart ''sha256:r'') \<and>
   excludedMatch literalMatch (trimStart ''sha256:r'') \<and>
   trimChildren (trimStart ''sha256:r'') =
     Inr ((trimStart ''sha256:r'')\<lparr>filterSet := [''sha256:p'', ''sha256:x'', ''sha256:n'']\<rparr>) \<and>
   trimChildren ((trimStart ''sha256:r'')\<lparr>filterSet := [''sha256:p'', ''sha256:x'', ''sha256:n'']\<rparr>) =
     Inr ((trimStart ''sha256:r'')\<lparr>filterSet := [''sha256:p'', ''sha256:x'', ''sha256:n'']\<rparr>) \<and>
   excludeTrim literalMatch (trimStart ''sha256:r'') =
     (trimStart ''sha256:r'')
       \<lparr>filterSet := [''sha256:p'', ''sha256:c'', ''sha256:x'', ''sha256:n''],
        excludeTags := [''sha256-p'']\<rparr> \<and>
   ageTrim (trimStart ''sha256:r'') =
     Inr ((trimStart ''sha256:r'')
            \<lparr>filterSet := [''sha256:p'', ''sha256:c'', ''sha256:r'', ''sha256:x'']\<rparr>) \<and>
   ageTrim ((trimStart ''sha256:r'')
            \<lparr>filterSet := [''sha256:p'', ''sha256:c'', ''sha256:r'', ''sha256:x'']\<rparr>) =
     Inr ((trimStart ''sha256:r'')
            \<lparr>filterSet := [''sha256:p'', ''sha256:c'', ''sha256:r'', ''sha256:x'']\<rparr>) \<and>
   inOrder [trimChildren, excludeStep literalMatch, ageTrim] (trimStart ''sha256:r'') =
     Inr ((trimStart ''sha256:r'')
            \<lparr>filterSet := [''sha256:p'', ''sha256:x''], excludeTags := [''sha256-p'']\<rparr>) \<and>
   inOrder [ageTrim, excludeStep literalMatch, trimChildren] (trimStart ''sha256:r'') =
     Inr ((trimStart ''sha256:r'')
            \<lparr>filterSet := [''sha256:p'', ''sha256:x''], excludeTags := [''sha256-p'']\<rparr>) \<and>
   reload literalMatch (trimFresh ''sha256:r'') =
     Inr ((trimStart ''sha256:r'')
            \<lparr>filterSet := [''sha256:p'', ''sha256:x''], excludeTags := [''sha256-p'']\<rparr>)"
proof -
  let ?s = "trimStart ''sha256:r''"
  have l: "loadDigestUsedByMap (reloadStart (trimFresh ''sha256:r'')) = Inr ?s"
    by (simp add: trim_defs example_defs read_defs set_defs reload_defs)
  have k: "knownSet ?s"
    by (simp add: trim_defs example_defs read_defs)
  have g: "tagsAgree literalMatch ?s"
    by (simp add: trim_defs example_defs read_defs set_defs)
  have e: "excludedMatch literalMatch ?s"
    by (simp add: trim_defs example_defs)
  have t: "trimChildren ?s = Inr (?s\<lparr>filterSet := [''sha256:p'', ''sha256:x'', ''sha256:n'']\<rparr>)"
    by (simp add: trim_defs example_defs read_defs set_defs reload_defs)
  have x: "excludeTrim literalMatch ?s =
     ?s\<lparr>filterSet := [''sha256:p'', ''sha256:c'', ''sha256:x'', ''sha256:n''],
        excludeTags := [''sha256-p'']\<rparr>"
    by (simp add: trim_defs example_defs read_defs set_defs reload_defs)
  have a: "ageTrim ?s =
     Inr (?s\<lparr>filterSet := [''sha256:p'', ''sha256:c'', ''sha256:r'', ''sha256:x'']\<rparr>)"
    by (simp add: trim_defs example_defs read_defs set_defs reload_defs)
  have o: "inOrder [trimChildren, excludeStep literalMatch, ageTrim] ?s =
     Inr (?s\<lparr>filterSet := [''sha256:p'', ''sha256:x''], excludeTags := [''sha256-p'']\<rparr>)"
    by (simp add: trim_defs example_defs read_defs set_defs reload_defs)
  have r: "reload literalMatch (trimFresh ''sha256:r'') =
     Inr (?s\<lparr>filterSet := [''sha256:p'', ''sha256:x''], excludeTags := [''sha256-p'']\<rparr>)"
    by (simp add: trim_defs example_defs read_defs set_defs reload_defs)
  note T = C6_trims[OF k, of literalMatch]
  from T t have i: "trimChildren (?s\<lparr>filterSet := [''sha256:p'', ''sha256:x'', ''sha256:n'']\<rparr>) =
      Inr (?s\<lparr>filterSet := [''sha256:p'', ''sha256:x'', ''sha256:n'']\<rparr>)" by blast
  from T a have j: "ageTrim (?s\<lparr>filterSet := [''sha256:p'', ''sha256:c'', ''sha256:r'', ''sha256:x'']\<rparr>) =
      Inr (?s\<lparr>filterSet := [''sha256:p'', ''sha256:c'', ''sha256:r'', ''sha256:x'']\<rparr>)" by blast
  from T g e have "inOrder [ageTrim, excludeStep literalMatch, trimChildren] ?s =
      inOrder [trimChildren, excludeStep literalMatch, ageTrim] ?s" by blast
  with o have p: "inOrder [ageTrim, excludeStep literalMatch, trimChildren] ?s =
     Inr (?s\<lparr>filterSet := [''sha256:p'', ''sha256:x''], excludeTags := [''sha256-p'']\<rparr>)"
    by simp
  from l k g e t i x a j o p r show ?thesis by (intro conjI)
qed

text \<open>
  The claim as stated fails where registry and listing disagree: the registry resolves
  the excluded referrer tag \<^verbatim>\<open>sha256-p\<close> to \<^verbatim>\<open>sha256:x\<close> while the listing shows it on
  \<^verbatim>\<open>sha256:r\<close>. The child trim first, as in \<^verbatim>\<open>reload\<close>, takes \<^verbatim>\<open>sha256:x\<close> out and
  leaves the filter set \<^verbatim>\<open>[sha256:p]\<close>; the exclude-tag trim first leaves
  \<^verbatim>\<open>[sha256:p, sha256:x]\<close>. And with registry and listing agreeing on \<^verbatim>\<open>sha256:r\<close>,
  the referrer part of the child trim has \<^verbatim>\<open>sha256:r\<close> among its targets although the
  exclude pattern matches the tag: \<^verbatim>\<open>reload\<close> runs the child trim before it computes
  \<^verbatim>\<open>excludeTags\<close>.
\<close>

theorem C6_order_counterexample:
  "loadDigestUsedByMap (reloadStart (trimFresh ''sha256:x'')) = Inr (trimStart ''sha256:x'') \<and>
   knownSet (trimStart ''sha256:x'') \<and>
   excludedMatch literalMatch (trimStart ''sha256:x'') \<and>
   \<not> tagsAgree literalMatch (trimStart ''sha256:x'') \<and>
   getTagDigest (trimStart ''sha256:x'') ''sha256-p'' = Inr ''sha256:x'' \<and>
   getDigestByTag (trimStart ''sha256:x'') ''sha256-p'' = Some ''sha256:r'' \<and>
   inOrder [trimChildren, excludeStep literalMatch, ageTrim] (trimStart ''sha256:x'') =
     Inr ((trimStart ''sha256:x'')
            \<lparr>filterSet := [''sha256:p''], excludeTags := [''sha256-p'']\<rparr>) \<and>
   inOrder [excludeStep literalMatch, trimChildren, ageTrim] (trimStart ''sha256:x'') =
     Inr ((trimStart ''sha256:x'')
            \<lparr>filterSet := [''sha256:p'', ''sha256:x''], excludeTags := [''sha256-p'']\<rparr>) \<and>
   loadDigestUsedByMap (reloadStart (trimFresh ''sha256:r'')) = Inr (trimStart ''sha256:r'') \<and>
   excludePattern literalMatch (trimStart ''sha256:r'') ''sha256-p'' \<and>
   trimTargets (trimStart ''sha256:r'') ''sha256:p'' = [''sha256:c'', ''sha256:r'']"
  by (simp add: trim_defs example_defs read_defs set_defs reload_defs trimTargets_def
      referrerTargets_def childDigests_def manifestChildren_def)

section \<open>The filter set and the delete set\<close>

lemma moved_refl [simp]: "moved s s"
  by (simp add: moved_def)

lemma moved_trans: "moved s t \<Longrightarrow> moved t u \<Longrightarrow> moved s u"
  unfolding moved_def by blast

lemma moved_disjoint: "disjointSets s \<Longrightarrow> moved s s' \<Longrightarrow> disjointSets s'"
  unfolding moved_def disjointSets_def by blast

lemma moved_step [simp]:
  "moved s (s\<lparr>deleteSet := setAdd d (deleteSet s), filterSet := setDelete d (filterSet s)\<rparr>)"
  "moved s (moveToDelete d s)"
  by (auto simp: moved_def moveToDelete_def)

lemma ghostLoop_moved: "ghostLoop ds s = Inr s' \<Longrightarrow> moved s s'"
  by (drule ghostLoop_sets) (auto simp: moved_def)

lemma partialLoop_moved: "partialLoop ds s = Inr s' \<Longrightarrow> moved s s'"
  by (drule partialLoop_sets) (auto simp: moved_def)

lemma standardLoop_moved: "standardLoop ts s = Inr s' \<Longrightarrow> moved s s'"
proof (induction ts arbitrary: s)
  case Nil
  then show ?case by simp
next
  case (Cons t ts)
  from Cons.prems obtain md where "getTagDigest s t = Inr md"
    and l: "standardLoop ts (s\<lparr>deleteSet := setAdd md (deleteSet s),
               filterSet := setDelete md (filterSet s)\<rparr>) = Inr s'"
    by (auto split: sum.splits)
  from moved_trans[OF moved_step(1) Cons.IH[OF l]] show ?case .
qed

lemma movePackages_moved: "movePackages lookup ps s = Inr s' \<Longrightarrow> moved s s'"
proof (induction ps arbitrary: s)
  case Nil
  then show ?case by simp
next
  case (Cons p ps)
  let ?s = "s\<lparr>deleteSet := setAdd (name p) (deleteSet s),
               filterSet := setDelete (name p) (filterSet s)\<rparr>"
  from Cons.prems have l: "movePackages lookup ps ?s = Inr s'"
    by (auto simp: Let_def split: if_splits)
  from moved_trans[OF moved_step(1) Cons.IH[OF l]] show ?case .
qed

lemma untaggedLoop_moved: "untaggedLoop ds s = Inr s' \<Longrightarrow> moved s s'"
proof (induction ds arbitrary: s)
  case Nil
  then show ?case by simp
next
  case (Cons d ds)
  from Cons.prems obtain p where p: "getPackageByDigest s d = Some p"
    by (auto split: option.splits)
  show ?case
  proof (cases "length (tags p) = 0")
    case True
    with Cons.prems p have l: "untaggedLoop ds (s\<lparr>deleteSet := setAdd d (deleteSet s),
               filterSet := setDelete d (filterSet s)\<rparr>) = Inr s'" by simp
    from moved_trans[OF moved_step(1) Cons.IH[OF l]] show ?thesis .
  next
    case False
    with Cons.prems p have "untaggedLoop ds s = Inr s'" by simp
    then show ?thesis by (rule Cons.IH)
  qed
qed

lemma keepNtagged_moved: "keepNtagged s = Inr s' \<Longrightarrow> moved s s'"
  by (auto simp: keepNtagged_def split: option.splits sum.splits if_splits
      dest: movePackages_moved)

lemma keepNuntagged_moved: "keepNuntagged s = Inr s' \<Longrightarrow> moved s s'"
  by (auto simp: keepNuntagged_def split: option.splits sum.splits if_splits
      dest: movePackages_moved)

lemma runPartialOrGhost_moved: "runPartialOrGhost s = Inr s' \<Longrightarrow> moved s s'"
  by (auto simp: runPartialOrGhost_def deleteGhostImages_def deletePartialImages_def
      split: if_splits dest: ghostLoop_moved partialLoop_moved)

lemma runKeepTagged_moved: "runKeepTagged s = Inr s' \<Longrightarrow> moved s s'"
  by (auto simp: runKeepTagged_def split: if_splits dest: keepNtagged_moved)

lemma runUntagged_moved: "runUntagged s = Inr s' \<Longrightarrow> moved s s'"
  by (auto simp: runUntagged_def deleteUntagged_def split: if_splits
      dest: keepNuntagged_moved untaggedLoop_moved)

text \<open>The reload ends with an empty delete set.\<close>

lemma usedByLoop_frame:
  "usedByLoop digests ds s = Inr s' \<Longrightarrow> \<exists>m. s' = s\<lparr>digestUsedBy := m\<rparr>"
proof (induction ds arbitrary: s)
  case Nil
  have "s = s\<lparr>digestUsedBy := digestUsedBy s\<rparr>" by simp
  with Nil show ?case by (metis usedByLoop.simps(1) sum.inject(2))
next
  case (Cons d ds)
  from Cons.prems obtain m where m: "getManifestByDigest s d = Inr m"
    by (auto split: sum.splits)
  show ?case
  proof (cases "manifests m")
    case None
    with Cons.prems m have "usedByLoop digests ds s = Inr s'" by simp
    then show ?thesis by (rule Cons.IH)
  next
    case (Some cs)
    with Cons.prems m
    have "usedByLoop digests ds (s\<lparr>digestUsedBy := mapChildren digests d cs (digestUsedBy s)\<rparr>) = Inr s'"
      by simp
    from Cons.IH[OF this] show ?thesis by auto
  qed
qed

lemma reload_deleteSet: "reload wcmatch s = Inr s' \<Longrightarrow> deleteSet s' = []"
proof -
  assume r: "reload wcmatch s = Inr s'"
  then obtain s3 s4 where u: "loadDigestUsedByMap (reloadStart s) = Inr s3"
    and t: "trimChildren s3 = Inr s4" and a: "ageTrim (excludeTrim wcmatch s4) = Inr s'"
    by (auto simp: reload_def split: sum.splits)
  from u obtain m where "s3 = (reloadStart s)\<lparr>digestUsedBy := Map.empty, digestUsedBy := m\<rparr>"
    unfolding loadDigestUsedByMap_def by (auto dest!: usedByLoop_frame)
  then have "deleteSet s3 = []" by (simp add: reloadStart_def loadPackages_def Let_def)
  with trimChildren_closed(1)[OF t] have "deleteSet s4 = []" by simp
  then have "deleteSet (excludeTrim wcmatch s4) = []" by (simp add: excludeTrim_closed)
  with ageTrim_closed[OF a] show ?thesis by simp
qed

lemma disjoint_empty: "deleteSet s = [] \<Longrightarrow> disjointSets s"
  by (simp add: disjointSets_def)

lemma processTags_disjoint:
  assumes "processTags wcmatch u st s = Inr s'" and "disjointSets s"
  shows "disjointSets s'"
proof (cases "length u > 0")
  case True
  with assms(1) obtain st' s1 s2 where "untagLoop u st s = Inr (st', s1)"
    and r: "reload wcmatch s1 = Inr s2"
    and l: "(if length st' > 0 then standardLoop st' s2 else Inr s2) = Inr s'"
    by (auto simp: processTags_def split: sum.splits prod.splits)
  from reload_deleteSet[OF r] have d: "disjointSets s2" by (rule disjoint_empty)
  from l have "moved s2 s'" by (auto split: if_splits dest: standardLoop_moved)
  with d show ?thesis by (rule moved_disjoint)
next
  case False
  with assms(1) have "moved s s'"
    by (auto simp: processTags_def split: if_splits dest: standardLoop_moved)
  with assms(2) show ?thesis by (rule moved_disjoint)
qed

lemma deleteByTag_disjoint:
  assumes "deleteByTag wcmatch s = Inr s'" and "disjointSets s"
  shows "disjointSets s'"
  using assms
  by (auto simp: deleteByTag_def split: option.splits if_splits sum.splits prod.splits
      dest: processTags_disjoint)

lemma doDelete_sets:
  assumes "doDelete s = Inr s'"
  shows "filterSet s' = filterSet s \<and> deleteSet s' = deleteSet s"
proof (cases "length (deleteSet s) > 0")
  case True
  with assms have "doDeleteLoop (deleteSet s) s = Inr s'" by (simp add: doDelete_def)
  from doDeleteLoop_frame[OF this] show ?thesis by (simp add: cascadeFrame_def)
next
  case False
  with assms show ?thesis by (simp add: doDelete_def)
qed

lemma run_disjoint:
  assumes "run wcmatch s = Inr (s', ws)" and "disjointSets s"
  shows "disjointSets s'"
proof -
  from assms(1) obtain s1 s2 s3 s4 s5
    where t: "(if truthy (cfg_deleteTags (config s)) then deleteByTag wcmatch s else Inr s) = Inr s1"
      and g: "runPartialOrGhost s1 = Inr s2" and k: "runKeepTagged s2 = Inr s3"
      and u: "runUntagged s3 = Inr s4" and d: "doDelete s4 = Inr s5"
      and v: "runValidate wcmatch s5 = Inr (s', ws)"
    by (auto simp: run_def split: sum.splits)
  from t assms(2) have "disjointSets s1"
    by (auto split: if_splits dest: deleteByTag_disjoint)
  with runPartialOrGhost_moved[OF g] have "disjointSets s2" by (auto intro: moved_disjoint)
  with runKeepTagged_moved[OF k] have "disjointSets s3" by (auto intro: moved_disjoint)
  with runUntagged_moved[OF u] have "disjointSets s4" by (auto intro: moved_disjoint)
  with doDelete_sets[OF d] have d5: "disjointSets s5" by (simp add: disjointSets_def)
  show ?thesis
  proof (cases "cfg_validate (config s5)")
    case True
    with v obtain "reload wcmatch s5 = Inr s'"
      by (auto simp: runValidate_def split: sum.splits)
    then show ?thesis by (auto dest: reload_deleteSet intro: disjoint_empty)
  next
    case False
    with v d5 show ?thesis by (simp add: runValidate_def)
  qed
qed

text \<open>
  Claim C8. From a state whose filter set and delete set are disjoint, every operation
  of the run that succeeds ends in such a state: explicit tag deletion (with or without
  the reload after an untagging), ghost and partial detection, keep-N tagged, keep-N
  untagged, delete-untagged, the deletion (which touches neither set), the reload (which
  empties the delete set) and the whole \<^verbatim>\<open>run\<close>. The five classifiers that do not
  reload only move digests: the filter set does not grow, the delete set does not
  shrink, and every digest the delete set gained is gone from the filter set.
\<close>

theorem C8_sets_disjoint:
  assumes "disjointSets s"
  shows "(\<forall>s'. deleteByTag wcmatch s = Inr s' \<longrightarrow> disjointSets s') \<and>
         (\<forall>s'. deleteGhostImages s = Inr s' \<longrightarrow> moved s s' \<and> disjointSets s') \<and>
         (\<forall>s'. deletePartialImages s = Inr s' \<longrightarrow> moved s s' \<and> disjointSets s') \<and>
         (\<forall>s'. keepNtagged s = Inr s' \<longrightarrow> moved s s' \<and> disjointSets s') \<and>
         (\<forall>s'. keepNuntagged s = Inr s' \<longrightarrow> moved s s' \<and> disjointSets s') \<and>
         (\<forall>s'. deleteUntagged s = Inr s' \<longrightarrow> moved s s' \<and> disjointSets s') \<and>
         (\<forall>s'. doDelete s = Inr s' \<longrightarrow> filterSet s' = filterSet s \<and> deleteSet s' = deleteSet s) \<and>
         (\<forall>s'. reload wcmatch s = Inr s' \<longrightarrow> deleteSet s' = [] \<and> disjointSets s') \<and>
         (\<forall>s' ws. run wcmatch s = Inr (s', ws) \<longrightarrow> disjointSets s')"
  using assms
  by (auto simp: deleteGhostImages_def deletePartialImages_def deleteUntagged_def
      dest: deleteByTag_disjoint ghostLoop_moved partialLoop_moved keepNtagged_moved
        keepNuntagged_moved untaggedLoop_moved doDelete_sets reload_deleteSet run_disjoint
      intro: moved_disjoint disjoint_empty)

theorem C8_sets_disjoint_witness:
  "disjointSets runExample \<and>
   run literalMatch runExample = Inr (runExampleDone, []) \<and>
   disjointSets runExampleDone \<and>
   filterSet runExampleDone = [''sha256:t2''] \<and>
   deleteSet runExampleDone = [''sha256:t1'', ''sha256:u''] \<and>
   keepNtagged runExample =
     Inr (runExample\<lparr>deleteSet := [''sha256:t1''], filterSet := [''sha256:t2'', ''sha256:u'']\<rparr>) \<and>
   moved runExample
     (runExample\<lparr>deleteSet := [''sha256:t1''], filterSet := [''sha256:t2'', ''sha256:u'']\<rparr>)"
proof -
  have d: "disjointSets runExample"
    by (simp add: disjointSets_def runExample_def example_defs)
  have r: "run literalMatch runExample = Inr (runExampleDone, [])"
    by (simp add: runExample_def runExampleDone_def example_defs read_defs set_defs classify_defs
        cascade_defs keep_defs)
  have k: "keepNtagged runExample =
     Inr (runExample\<lparr>deleteSet := [''sha256:t1''], filterSet := [''sha256:t2'', ''sha256:u'']\<rparr>)"
    by (simp add: runExample_def example_defs read_defs set_defs keep_defs)
  have f: "filterSet runExampleDone = [''sha256:t2'']"
    "deleteSet runExampleDone = [''sha256:t1'', ''sha256:u'']"
    by (simp_all add: runExampleDone_def)
  note T = C8_sets_disjoint[OF d, of literalMatch]
  from T r have "disjointSets runExampleDone" by blast
  moreover from T k have "moved runExample
     (runExample\<lparr>deleteSet := [''sha256:t1''], filterSet := [''sha256:t2'', ''sha256:u'']\<rparr>)"
    by blast
  ultimately show ?thesis using d r k f by (intro conjI)
qed

section \<open>Explicit tag deletion: untagging\<close>

lemmas untag_defs =
  untag_def untagged_def putManifest_def deleteTag_def retag_def emptyManifest_def withoutTag_def
  loadPackages_def deletePackageVersion_def Let_def

lemma putCalls_append [simp]: "putCalls (xs @ ys) = putCalls xs @ putCalls ys"
  by (induction xs rule: putCalls.induct) auto

lemma find_fresh:
  assumes "N \<notin> name ` set ps"
  shows "find (\<lambda>p. name p = N) (ps @ [q\<lparr>name := N\<rparr>]) = Some (q\<lparr>name := N\<rparr>)"
  using assms by (induction ps) auto

lemma retag_fresh:
  assumes "N \<notin> name ` set (hosted r)"
  shows "hosted (retag t N now r) =
           map (withoutTag t) (hosted r) @
           [\<lparr>pkg_id = nextId r, name = N, tags = [t], updated_at = Some now\<rparr>]"
proof -
  have "name ` set (map (\<lambda>p. p\<lparr>tags := removeAll t (tags p)\<rparr>) (hosted r)) = name ` set (hosted r)"
    by (auto simp: image_iff)
  with assms show ?thesis
    by (auto simp: retag_def Let_def withoutTag_def)
qed

lemma filter_ids:
  assumes "\<forall>q\<in>set ps. pkg_id q < n"
  shows "filter (\<lambda>p. pkg_id p \<noteq> n) (map (withoutTag t) ps @ [\<lparr>pkg_id = n, name = N, tags = ts, updated_at = u\<rparr>])
           = map (withoutTag t) ps"
  using assms by (induction ps) (auto simp: withoutTag_def)

lemma pushed_listing:
  assumes "digestOf (registry s) m \<notin> name ` set (hosted (githubPackageRepo s))"
    and "listsPushes (githubPackageRepo s)"
  shows "loaded (githubPackageRepo (loadPackages False (deleteTag t (putManifest t m b s)))) =
           map (withoutTag t) (hosted (githubPackageRepo s)) @
           [\<lparr>pkg_id = nextId (githubPackageRepo s), name = digestOf (registry s) m, tags = [t],
             updated_at = Some (dateNow s)\<rparr>]"
    and "hosted (githubPackageRepo (loadPackages False (deleteTag t (putManifest t m b s)))) =
           map (withoutTag t) (hosted (githubPackageRepo s)) @
           [\<lparr>pkg_id = nextId (githubPackageRepo s), name = digestOf (registry s) m, tags = [t],
             updated_at = Some (dateNow s)\<rparr>]"
    and "getTagDigest (loadPackages False (deleteTag t (putManifest t m b s))) t =
           Inr (digestOf (registry s) m)"
  using retag_fresh[OF assms(1), of t "dateNow s"] assms(2)
  by (simp_all add: loadPackages_def deleteTag_def putManifest_def getTagDigest_def Let_def)

lemma untag_fresh:
  assumes fresh: "digestOf (registry s) (emptyManifest manifest) \<notin> name ` set (hosted (githubPackageRepo s))"
    and ids: "\<forall>q\<in>set (hosted (githubPackageRepo s)). pkg_id q < nextId (githubPackageRepo s)"
    and lists: "listsPushes (githubPackageRepo s)"
  shows "untag t manifest s = Inr (untagged t manifest (nextId (githubPackageRepo s)) s)"
    and "hosted (githubPackageRepo (untagged t manifest (nextId (githubPackageRepo s)) s)) =
           map (withoutTag t) (hosted (githubPackageRepo s))"
proof -
  let ?N = "digestOf (registry s) (emptyManifest manifest)"
  let ?r = "githubPackageRepo s"
  let ?new = "\<lparr>pkg_id = nextId ?r, name = ?N, tags = [t], updated_at = Some (dateNow s)\<rparr>"
  note l = pushed_listing[OF fresh lists, of t]
  have "name ` set (map (withoutTag t) (hosted ?r)) = name ` set (hosted ?r)"
    by (auto simp: image_iff withoutTag_def)
  with fresh have "?N \<notin> name ` set (map (withoutTag t) (hosted ?r))" by simp
  from find_fresh[OF this, of ?new]
  have f: "find (\<lambda>p. name p = ?N) (map (withoutTag t) (hosted ?r) @ [?new]) = Some ?new"
    by simp
  show "untag t manifest s = Inr (untagged t manifest (nextId ?r) s)"
    by (simp add: untag_def untagged_def Let_def l getIdByDigest_def getPackageByDigest_def f)
  from filter_ids[OF ids]
  show "hosted (githubPackageRepo (untagged t manifest (nextId ?r) s)) = map (withoutTag t) (hosted ?r)"
    by (simp add: untagged_def deletePackageVersion_def Let_def l)
qed

lemma untagged_calls:
  "calls (untagged t manifest i s) =
     calls s @ [PutManifest t (emptyManifest manifest) (manifests manifest \<noteq> None), DeleteTag t,
                LoadPackages False,
                DeletePackageVersion i (digestOf (registry s) (emptyManifest manifest)) [t] None]"
  "getTagDigest (untagged t manifest i s) t = Inr (digestOf (registry s) (emptyManifest manifest))"
  "numberImagesDeleted (untagged t manifest i s) = numberImagesDeleted s + 1"
  "filterSet (untagged t manifest i s) = filterSet s"
  "deleteSet (untagged t manifest i s) = deleteSet s"
  by (simp_all add: untagged_def loadPackages_def deleteTag_def putManifest_def
      deletePackageVersion_def getTagDigest_def Let_def)

lemma sets_update_reads [simp]:
  "getTagDigest (s\<lparr>deleteSet := x, filterSet := y\<rparr>) = getTagDigest s"
  "getTagDigest (s\<lparr>deleteSet := x\<rparr>) = getTagDigest s"
  by (simp_all add: fun_eq_iff getTagDigest_def)

lemma standardLoop_sets:
  "standardLoop ts s = Inr s' \<Longrightarrow>
     set (deleteSet s') = set (deleteSet s) \<union> {d. \<exists>t\<in>set ts. getTagDigest s t = Inr d} \<and>
     set (filterSet s') = set (filterSet s) - {d. \<exists>t\<in>set ts. getTagDigest s t = Inr d}"
proof (induction ts arbitrary: s)
  case Nil
  then show ?case by simp
next
  case (Cons t ts)
  from Cons.prems obtain md where md: "getTagDigest s t = Inr md"
    and l: "standardLoop ts (s\<lparr>deleteSet := setAdd md (deleteSet s),
               filterSet := setDelete md (filterSet s)\<rparr>) = Inr s'"
    by (auto split: sum.splits)
  from Cons.IH[OF l] md show ?case by auto
qed

lemma processTags_order:
  assumes "processTags wcmatch u st s = Inr s'" and "u \<noteq> []"
  shows "\<exists>st' s1 s2. untagLoop u st s = Inr (st', s1) \<and> reload wcmatch s1 = Inr s2 \<and>
           set (deleteSet s') = {d. \<exists>x\<in>set st'. getTagDigest s2 x = Inr d} \<and>
           set (filterSet s') = set (filterSet s2) - set (deleteSet s')"
proof -
  from assms obtain st' s1 s2 where ul: "untagLoop u st s = Inr (st', s1)"
    and r: "reload wcmatch s1 = Inr s2"
    and l: "(if length st' > 0 then standardLoop st' s2 else Inr s2) = Inr s'"
    by (auto simp: processTags_def split: sum.splits prod.splits)
  note e = reload_deleteSet[OF r]
  have "set (deleteSet s') = {d. \<exists>x\<in>set st'. getTagDigest s2 x = Inr d} \<and>
           set (filterSet s') = set (filterSet s2) - set (deleteSet s')"
  proof (cases "length st' > 0")
    case True
    with l have "standardLoop st' s2 = Inr s'" by simp
    from standardLoop_sets[OF this] e show ?thesis by simp
  next
    case False
    with l e show ?thesis by simp
  qed
  with ul r show ?thesis by blast
qed

text \<open>
  The listing after the push: the service that lists pushes has a version of the pushed
  digest, an existing one or a new one.
\<close>

lemma names_addTag:
  "map name (map (\<lambda>p. if name p = N then p\<lparr>tags := tags p @ [t]\<rparr> else p) xs) = map name xs"
  by (induction xs) auto

lemma retag_names:
  "N \<in> name ` set (hosted (retag t N now r))"
proof -
  let ?st = "map (\<lambda>p. p\<lparr>tags := removeAll t (tags p)\<rparr>) (hosted r)"
  let ?f = "\<lambda>p. if name p = N then p\<lparr>tags := tags p @ [t]\<rparr> else p"
  show ?thesis
  proof (cases "N \<in> set (map name ?st)")
    case True
    have h: "hosted (retag t N now r) = map ?f ?st"
      unfolding retag_def Let_def by (subst if_P[OF True]) simp
    have "set (map name (map ?f ?st)) = set (map name ?st)"
      by (simp only: names_addTag)
    with True have "N \<in> set (map name (map ?f ?st))" by simp
    then show ?thesis unfolding h by (simp only: set_map)
  next
    case False
    have h: "hosted (retag t N now r) =
        ?st @ [\<lparr>pkg_id = nextId r, name = N, tags = [t], updated_at = Some now\<rparr>]"
      unfolding retag_def Let_def by (subst if_not_P[OF False]) simp
    show ?thesis unfolding h by simp
  qed
qed

lemma find_None_names: "(find (\<lambda>p. name p = N) ps = None) = (N \<notin> name ` set ps)"
  by (induction ps) auto

lemma pushed_reads:
  "getTagDigest (pushed t m s) t = Inr (digestOf (registry s) (emptyManifest m))"
  "calls (pushed t m s) =
     calls s @ [PutManifest t (emptyManifest m) (manifests m \<noteq> None), DeleteTag t, LoadPackages False]"
  "numberImagesDeleted (pushed t m s) = numberImagesDeleted s"
  "(getIdByDigest (pushed t m s) (digestOf (registry s) (emptyManifest m)) = None) =
     (\<not> listsPushes (githubPackageRepo s) \<and>
      digestOf (registry s) (emptyManifest m) \<notin> name ` set (hosted (githubPackageRepo s)))"
proof -
  show "getTagDigest (pushed t m s) t = Inr (digestOf (registry s) (emptyManifest m))"
    by (simp add: pushed_def loadPackages_def deleteTag_def putManifest_def getTagDigest_def Let_def)
  show "calls (pushed t m s) =
     calls s @ [PutManifest t (emptyManifest m) (manifests m \<noteq> None), DeleteTag t, LoadPackages False]"
    by (simp add: pushed_def loadPackages_def deleteTag_def putManifest_def Let_def)
  show "numberImagesDeleted (pushed t m s) = numberImagesDeleted s"
    by (simp add: pushed_def loadPackages_def deleteTag_def putManifest_def Let_def)
  let ?N = "digestOf (registry s) (emptyManifest m)"
  have l: "loaded (githubPackageRepo (pushed t m s)) =
      (if listsPushes (githubPackageRepo s) then hosted (retag t ?N (dateNow s) (githubPackageRepo s))
       else hosted (githubPackageRepo s))"
    by (simp add: pushed_def loadPackages_def deleteTag_def putManifest_def Let_def)
  have "(getIdByDigest (pushed t m s) ?N = None) =
          (?N \<notin> name ` set (loaded (githubPackageRepo (pushed t m s))))"
    by (simp only: getIdByDigest_def getPackageByDigest_def find_None_names option.map_disc_iff)
  also have "\<dots> = (\<not> listsPushes (githubPackageRepo s) \<and>
      ?N \<notin> name ` set (hosted (githubPackageRepo s)))"
    unfolding l using retag_names[of ?N t "dateNow s" "githubPackageRepo s"]
    by (cases "listsPushes (githubPackageRepo s)") simp_all
  finally show "(getIdByDigest (pushed t m s) ?N = None) =
     (\<not> listsPushes (githubPackageRepo s) \<and>
      ?N \<notin> name ` set (hosted (githubPackageRepo s)))" .
qed

lemma untag_pushed:
  "untag t m s =
     Inr (case getIdByDigest (pushed t m s) (digestOf (registry s) (emptyManifest m)) of
            None \<Rightarrow> pushed t m s
          | Some i \<Rightarrow>
              (deletePackageVersion i (digestOf (registry s) (emptyManifest m)) [t] None (pushed t m s))
                \<lparr>numberImagesDeleted := numberImagesDeleted s + 1\<rparr>)"
proof -
  have "untag t m s =
     (case getTagDigest (pushed t m s) t of
           Inl e \<Rightarrow> Inl e
         | Inr untaggedDigest \<Rightarrow>
             (case getIdByDigest (pushed t m s) untaggedDigest of
                Some i \<Rightarrow>
                  Inr ((deletePackageVersion i untaggedDigest [t] None (pushed t m s))
                         \<lparr>numberImagesDeleted := numberImagesDeleted (pushed t m s) + 1\<rparr>)
              | None \<Rightarrow> Inr (pushed t m s)))"
    unfolding untag_def pushed_def Let_def ..
  then show ?thesis
    by (simp add: pushed_reads(1,3) split: option.splits)
qed

lemma pushed_other:
  "t' \<noteq> t \<Longrightarrow> getTagDigest (pushed t m s) t' = getTagDigest s t'"
  by (simp add: pushed_def loadPackages_def deleteTag_def putManifest_def getTagDigest_def Let_def)

text \<open>
  Claim C4, amended. A tag \<open>t\<close> resolves to a digest \<open>D\<close> that carries more than one tag,
  and \<open>N\<close> is the content address of the clone of its manifest with the child list
  emptied (an index) or the layer list emptied (a leaf). The untagging of \<open>t\<close> always
  returns; it pushes exactly one manifest, that clone, under the tag \<open>t\<close>, after which
  the tag resolves to \<open>N\<close> and every other tag to what it did. It hands at most one
  digest to \<^verbatim>\<open>deletePackageVersion\<close>, namely \<open>N\<close>, and does so exactly when the listing
  loaded after the push knows \<open>N\<close>: when the service lists the push or already hosts
  \<open>N\<close>. So \<open>D\<close> is handed over only when \<open>N = D\<close>, the manifest being empty already.
  When \<open>N\<close> is new to the service, the service lists the push and gives the new version
  an unused id, the push adds one version, that of \<open>N\<close>, with the tag \<open>t\<close>, and after
  the deletion every version hosted before is hosted, \<open>D\<close> among them, only without
  the tag \<open>t\<close>. Whenever the untagging set is not empty, the standard deletions work on
  the reloaded state: the delete set is made of the digests the standard tags resolve
  to after the reload.
\<close>

theorem C4_untagging:
  assumes tag: "getTagDigest s t = Inr D" "getPackageByDigest s D = Some p" "length (tags p) > 1"
    and manifest: "getManifestByTag s t = Inr manifest"
    and new: "N = digestOf (registry s) (emptyManifest manifest)"
  shows "\<exists>s1. untagLoop [t] st s = Inr (st, s1) \<and>
         putCalls (calls s1) =
           putCalls (calls s) @ [(t, emptyManifest manifest, manifests manifest \<noteq> None)] \<and>
         emptyManifest manifest =
           (if manifests manifest \<noteq> None then manifest\<lparr>manifests := Some []\<rparr>
            else manifest\<lparr>layers := Some []\<rparr>) \<and>
         getTagDigest s1 t = Inr N \<and>
         (\<forall>t'. t' \<noteq> t \<longrightarrow> getTagDigest s1 t' = getTagDigest s t') \<and>
         (getIdByDigest (pushed t manifest s) N = None) =
           (\<not> listsPushes (githubPackageRepo s) \<and> N \<notin> name ` set (hosted (githubPackageRepo s))) \<and>
         deleteCalls (calls s1) =
           deleteCalls (calls s) @ (if getIdByDigest (pushed t manifest s) N = None then [] else [N]) \<and>
         numberImagesDeleted s1 =
           numberImagesDeleted s + (if getIdByDigest (pushed t manifest s) N = None then 0 else 1) \<and>
         (D \<in> set (deleteCalls (calls s1))) =
           (D \<in> set (deleteCalls (calls s)) \<or>
            N = D \<and> getIdByDigest (pushed t manifest s) N \<noteq> None) \<and>
         (N \<notin> name ` set (hosted (githubPackageRepo s)) \<and> listsPushes (githubPackageRepo s) \<and>
          (\<forall>q\<in>set (hosted (githubPackageRepo s)). pkg_id q < nextId (githubPackageRepo s)) \<longrightarrow>
            hosted (githubPackageRepo (pushed t manifest s)) =
              map (withoutTag t) (hosted (githubPackageRepo s)) @
              [\<lparr>pkg_id = nextId (githubPackageRepo s), name = N, tags = [t],
                updated_at = Some (dateNow s)\<rparr>] \<and>
            hosted (githubPackageRepo s1) = map (withoutTag t) (hosted (githubPackageRepo s))) \<and>
         (\<forall>u st0 s'. u \<noteq> [] \<and> processTags wcmatch u st0 s = Inr s' \<longrightarrow>
            (\<exists>st' s1' s2. untagLoop u st0 s = Inr (st', s1') \<and> reload wcmatch s1' = Inr s2 \<and>
               set (deleteSet s') = {d. \<exists>x\<in>set st'. getTagDigest s2 x = Inr d} \<and>
               set (filterSet s') = set (filterSet s2) - set (deleteSet s')))"
proof -
  let ?P = "pushed t manifest s"
  define s1 where "s1 = (case getIdByDigest ?P N of
            None \<Rightarrow> ?P
          | Some i \<Rightarrow> (deletePackageVersion i N [t] None ?P)
                \<lparr>numberImagesDeleted := numberImagesDeleted s + 1\<rparr>)"
  have u: "untag t manifest s = Inr s1"
    unfolding s1_def new by (rule untag_pushed)
  with tag manifest have a: "untagLoop [t] st s = Inr (st, s1)" by simp
  have b: "emptyManifest manifest =
           (if manifests manifest \<noteq> None then manifest\<lparr>manifests := Some []\<rparr>
            else manifest\<lparr>layers := Some []\<rparr>)"
    by (auto simp: emptyManifest_def split: option.splits)
  have c: "putCalls (calls s1) =
           putCalls (calls s) @ [(t, emptyManifest manifest, manifests manifest \<noteq> None)]"
    "getTagDigest s1 t = Inr N"
    "deleteCalls (calls s1) =
           deleteCalls (calls s) @ (if getIdByDigest ?P N = None then [] else [N])"
    "numberImagesDeleted s1 =
           numberImagesDeleted s + (if getIdByDigest ?P N = None then 0 else 1)"
  proof -
    note r = pushed_reads(1-3)[of t manifest s, folded new]
    show "putCalls (calls s1) =
           putCalls (calls s) @ [(t, emptyManifest manifest, manifests manifest \<noteq> None)]"
      by (cases "getIdByDigest ?P N") (simp_all add: s1_def r deletePackageVersion_def)
    show "getTagDigest s1 t = Inr N"
      using r(1) by (cases "getIdByDigest ?P N") (simp_all add: s1_def deletePackageVersion_def getTagDigest_def)
    show "deleteCalls (calls s1) =
           deleteCalls (calls s) @ (if getIdByDigest ?P N = None then [] else [N])"
      by (cases "getIdByDigest ?P N") (simp_all add: s1_def r deletePackageVersion_def)
    show "numberImagesDeleted s1 =
           numberImagesDeleted s + (if getIdByDigest ?P N = None then 0 else 1)"
      by (cases "getIdByDigest ?P N") (simp_all add: s1_def r deletePackageVersion_def)
  qed
  have d: "(getIdByDigest ?P N = None) =
           (\<not> listsPushes (githubPackageRepo s) \<and> N \<notin> name ` set (hosted (githubPackageRepo s)))"
    unfolding new by (rule pushed_reads(4))
  from c(3) have e: "(D \<in> set (deleteCalls (calls s1))) =
           (D \<in> set (deleteCalls (calls s)) \<or> N = D \<and> getIdByDigest ?P N \<noteq> None)"
    by auto
  have o: "\<forall>t'. t' \<noteq> t \<longrightarrow> getTagDigest s1 t' = getTagDigest s t'"
  proof (intro allI impI)
    fix t' :: tag assume "t' \<noteq> t"
    from pushed_other[OF this, of manifest s]
    show "getTagDigest s1 t' = getTagDigest s t'"
      by (cases "getIdByDigest ?P N") (simp_all add: s1_def deletePackageVersion_def getTagDigest_def)
  qed
  have f: "N \<notin> name ` set (hosted (githubPackageRepo s)) \<and> listsPushes (githubPackageRepo s) \<and>
          (\<forall>q\<in>set (hosted (githubPackageRepo s)). pkg_id q < nextId (githubPackageRepo s)) \<longrightarrow>
            hosted (githubPackageRepo ?P) =
              map (withoutTag t) (hosted (githubPackageRepo s)) @
              [\<lparr>pkg_id = nextId (githubPackageRepo s), name = N, tags = [t],
                updated_at = Some (dateNow s)\<rparr>] \<and>
            hosted (githubPackageRepo s1) = map (withoutTag t) (hosted (githubPackageRepo s))"
  proof
    assume h: "N \<notin> name ` set (hosted (githubPackageRepo s)) \<and> listsPushes (githubPackageRepo s) \<and>
          (\<forall>q\<in>set (hosted (githubPackageRepo s)). pkg_id q < nextId (githubPackageRepo s))"
    then have h1: "digestOf (registry s) (emptyManifest manifest) \<notin> name ` set (hosted (githubPackageRepo s))"
      and h2: "\<forall>q\<in>set (hosted (githubPackageRepo s)). pkg_id q < nextId (githubPackageRepo s)"
      and h3: "listsPushes (githubPackageRepo s)"
      using new by simp_all
    note uf = untag_fresh[OF h1 h2 h3, of t]
    from uf(1) u have "s1 = untagged t manifest (nextId (githubPackageRepo s)) s" by simp
    with uf(2) have a: "hosted (githubPackageRepo s1) = map (withoutTag t) (hosted (githubPackageRepo s))"
      by simp
    from pushed_listing(2)[OF h1 h3, of t "manifests manifest \<noteq> None"] new
    have "hosted (githubPackageRepo ?P) =
              map (withoutTag t) (hosted (githubPackageRepo s)) @
              [\<lparr>pkg_id = nextId (githubPackageRepo s), name = N, tags = [t],
                updated_at = Some (dateNow s)\<rparr>]"
      by (simp add: pushed_def)
    with a show "hosted (githubPackageRepo ?P) =
              map (withoutTag t) (hosted (githubPackageRepo s)) @
              [\<lparr>pkg_id = nextId (githubPackageRepo s), name = N, tags = [t],
                updated_at = Some (dateNow s)\<rparr>] \<and>
            hosted (githubPackageRepo s1) = map (withoutTag t) (hosted (githubPackageRepo s))"
      by simp
  qed
  have g: "\<forall>u st0 s'. u \<noteq> [] \<and> processTags wcmatch u st0 s = Inr s' \<longrightarrow>
            (\<exists>st' s1' s2. untagLoop u st0 s = Inr (st', s1') \<and> reload wcmatch s1' = Inr s2 \<and>
               set (deleteSet s') = {d. \<exists>x\<in>set st'. getTagDigest s2 x = Inr d} \<and>
               set (filterSet s') = set (filterSet s2) - set (deleteSet s'))"
    using processTags_order by blast
  from a c(1) b c(2) o d c(3) c(4) e f g show ?thesis by (intro exI[of _ s1] conjI)
qed

theorem C4_untagging_witness:
  "getTagDigest twoTags ''v1'' = Inr ''sha256:d'' \<and>
   getPackageByDigest twoTags ''sha256:d'' = Some (version 1 ''sha256:d'' [''v1'', ''v2'']) \<and>
   getManifestByTag twoTags ''v1'' = Inr (indexOf [''sha256:a'']) \<and>
   digestOf (registry twoTags) (emptyManifest (indexOf [''sha256:a''])) = ''sha256:new'' \<and>
   getIdByDigest (pushed ''v1'' (indexOf [''sha256:a'']) twoTags) ''sha256:new'' = Some 100 \<and>
   untagLoop [''v1''] [] twoTags = Inr ([], untagged ''v1'' (indexOf [''sha256:a'']) 100 twoTags) \<and>
   putCalls (calls (untagged ''v1'' (indexOf [''sha256:a'']) 100 twoTags)) =
     [(''v1'', indexOf [], True)] \<and>
   deleteCalls (calls (untagged ''v1'' (indexOf [''sha256:a'']) 100 twoTags)) = [''sha256:new''] \<and>
   ''sha256:d'' \<notin> set (deleteCalls (calls (untagged ''v1'' (indexOf [''sha256:a'']) 100 twoTags))) \<and>
   hosted (githubPackageRepo (untagged ''v1'' (indexOf [''sha256:a'']) 100 twoTags)) =
     [version 1 ''sha256:d'' [''v2''], version 2 ''sha256:a'' []] \<and>
   getTagDigest (untagged ''v1'' (indexOf [''sha256:a'']) 100 twoTags) ''v2'' = Inr ''sha256:d'' \<and>
   deleteByTag literalMatch twoTags = Inr untagDone \<and>
   reload literalMatch (untagged ''v1'' (indexOf [''sha256:a'']) 100 twoTags) = Inr untagDone \<and>
   getPackageByDigest untagDone ''sha256:d'' = Some (version 1 ''sha256:d'' [''v2'']) \<and>
   filterSet untagDone = [''sha256:d''] \<and> deleteSet untagDone = []"
proof -
  let ?m = "indexOf [''sha256:a'']"
  let ?s1 = "untagged ''v1'' ?m 100 twoTags"
  have tag: "getTagDigest twoTags ''v1'' = Inr ''sha256:d''"
    "getPackageByDigest twoTags ''sha256:d'' = Some (version 1 ''sha256:d'' [''v1'', ''v2''])"
    "length (tags (version 1 ''sha256:d'' [''v1'', ''v2''])) > 1"
    by (simp_all add: twoTags_def example_defs read_defs)
  have man: "getManifestByTag twoTags ''v1'' = Inr ?m"
    by (simp add: twoTags_def example_defs read_defs)
  have new: "''sha256:new'' = digestOf (registry twoTags) (emptyManifest ?m)"
    by (simp add: twoTags_def example_defs)
  have fresh: "''sha256:new'' \<notin> name ` set (hosted (githubPackageRepo twoTags))"
    "listsPushes (githubPackageRepo twoTags)"
    "\<forall>q\<in>set (hosted (githubPackageRepo twoTags)). pkg_id q < nextId (githubPackageRepo twoTags)"
    by (simp_all add: twoTags_def example_defs)
  have i: "getIdByDigest (pushed ''v1'' ?m twoTags) ''sha256:new'' = Some 100"
    by (simp add: pushed_def twoTags_def example_defs read_defs untag_defs)
  have a: "untagLoop [''v1''] [] twoTags = Inr ([], ?s1)"
    by (simp add: twoTags_def example_defs read_defs set_defs untag_defs)
  from C4_untagging[OF tag man new, of "[]" literalMatch] obtain s1 where
    T: "untagLoop [''v1''] [] twoTags = Inr ([], s1)"
      "putCalls (calls s1) =
         putCalls (calls twoTags) @ [(''v1'', emptyManifest ?m, manifests ?m \<noteq> None)]"
      "deleteCalls (calls s1) = deleteCalls (calls twoTags) @
         (if getIdByDigest (pushed ''v1'' ?m twoTags) ''sha256:new'' = None then [] else [''sha256:new''])"
      "''sha256:new'' \<notin> name ` set (hosted (githubPackageRepo twoTags)) \<and>
       listsPushes (githubPackageRepo twoTags) \<and>
       (\<forall>q\<in>set (hosted (githubPackageRepo twoTags)). pkg_id q < nextId (githubPackageRepo twoTags)) \<longrightarrow>
         hosted (githubPackageRepo (pushed ''v1'' ?m twoTags)) =
           map (withoutTag ''v1'') (hosted (githubPackageRepo twoTags)) @
           [\<lparr>pkg_id = nextId (githubPackageRepo twoTags), name = ''sha256:new'', tags = [''v1''],
             updated_at = Some (dateNow twoTags)\<rparr>] \<and>
         hosted (githubPackageRepo s1) = map (withoutTag ''v1'') (hosted (githubPackageRepo twoTags))"
      "\<forall>t'. t' \<noteq> ''v1'' \<longrightarrow> getTagDigest s1 t' = getTagDigest twoTags t'"
    by blast
  from T(1) a have s1: "s1 = ?s1" by simp
  have e: "emptyManifest ?m = indexOf []" "(manifests ?m \<noteq> None) = True"
    by (simp_all add: emptyManifest_def indexOf_def)
  have c0: "putCalls (calls twoTags) = []" "deleteCalls (calls twoTags) = []"
    "map (withoutTag ''v1'') (hosted (githubPackageRepo twoTags)) =
       [version 1 ''sha256:d'' [''v2''], version 2 ''sha256:a'' []]"
    by (simp_all add: twoTags_def example_defs withoutTag_def)
  from T(2) s1 e c0 have b: "putCalls (calls ?s1) = [(''v1'', indexOf [], True)]" by simp
  from T(3) s1 i c0 have c: "deleteCalls (calls ?s1) = [''sha256:new'']" by simp
  then have c': "''sha256:d'' \<notin> set (deleteCalls (calls ?s1))" by simp
  from T(4) fresh s1 c0 have h: "hosted (githubPackageRepo ?s1) =
     [version 1 ''sha256:d'' [''v2''], version 2 ''sha256:a'' []]" by simp
  have "getTagDigest twoTags ''v2'' = Inr ''sha256:d''"
    by (simp add: twoTags_def example_defs read_defs)
  with T(5) s1 have v2: "getTagDigest ?s1 ''v2'' = Inr ''sha256:d''" by simp
  have d: "deleteByTag literalMatch twoTags = Inr untagDone"
    by (simp add: twoTags_def untagDone_def example_defs read_defs set_defs reload_defs tag_defs
        untag_defs)
  have r: "reload literalMatch ?s1 = Inr untagDone"
    by (simp add: twoTags_def untagDone_def example_defs read_defs set_defs reload_defs untag_defs)
  have g: "getPackageByDigest untagDone ''sha256:d'' = Some (version 1 ''sha256:d'' [''v2''])"
    "filterSet untagDone = [''sha256:d'']" "deleteSet untagDone = []"
    by (simp_all add: untagDone_def twoTags_def example_defs read_defs)
  from tag(1,2) man new[symmetric] i a b c c' h v2 d r g show ?thesis by (intro conjI)
qed

text \<open>
  The claim as stated fails in two ways. Where the package service does not list the
  pushed manifest when the listing is loaded again, \<^verbatim>\<open>getIdByDigest\<close> finds no id for
  the new digest, the branch of lines 517-521 only logs, and the new digest is created
  and not deleted. And where the manifest behind the tag has an empty child list
  already, the clone is the manifest itself: the push creates no new digest, the tag
  resolves to the original digest again, and lines 508-516 delete the original digest
  with all its tags.
\<close>

theorem C4_untagging_counterexample:
  "getTagDigest twoTagsLagging ''v1'' = Inr ''sha256:d'' \<and>
   getPackageByDigest twoTagsLagging ''sha256:d'' = Some (version 1 ''sha256:d'' [''v1'', ''v2'']) \<and>
   untagLoop [''v1''] [] twoTagsLagging = Inr ([], pushedNotListed) \<and>
   putCalls (calls pushedNotListed) = [(''v1'', indexOf [], True)] \<and>
   getTagDigest pushedNotListed ''v1'' = Inr ''sha256:new'' \<and>
   getIdByDigest pushedNotListed ''sha256:new'' = None \<and>
   deleteCalls (calls pushedNotListed) = [] \<and>
   numberImagesDeleted pushedNotListed = 0 \<and>
   getTagDigest emptyTagged ''v1'' = Inr ''sha256:e'' \<and>
   getPackageByDigest emptyTagged ''sha256:e'' = Some (version 1 ''sha256:e'' [''v1'', ''v2'']) \<and>
   getManifestByTag emptyTagged ''v1'' = Inr (indexOf []) \<and>
   (case untagLoop [''v1''] [] emptyTagged of
      Inl e \<Rightarrow> False
    | Inr (st, s1) \<Rightarrow>
        putCalls (calls s1) = [(''v1'', indexOf [], True)] \<and>
        getTagDigest s1 ''v1'' = Inr ''sha256:e'' \<and>
        deleteCalls (calls s1) = [''sha256:e''] \<and>
        hosted (githubPackageRepo s1) = [])"
  by (simp add: twoTagsLagging_def pushedNotListed_def twoTags_def emptyTagged_def example_defs
      read_defs set_defs untag_defs)

section \<open>Explicit tag deletion: the tags selected and what is done with them\<close>

lemma collectMatch_set:
  "collectMatch f s ds = Inr matchTags \<Longrightarrow>
     set matchTags =
       {t. f t \<and> (\<exists>d\<in>set ds. \<exists>p. getPackageByDigest s d = Some p \<and> t \<in> set (tags p))}"
proof (induction ds arbitrary: matchTags)
  case Nil
  then show ?case by simp
next
  case (Cons d ds)
  from Cons.prems obtain p r where p: "getPackageByDigest s d = Some p"
    and r: "collectMatch f s ds = Inr r" and m: "matchTags = filter f (tags p) @ r"
    by (auto split: option.splits sum.splits)
  from Cons.IH[OF r] p m show ?case by auto
qed

lemma deleteByTag_selected:
  assumes "cfg_deleteTags (config s) = Some pat" and "pat \<noteq> []"
    and "selectedTags (wcmatch (splitComma pat)) s = Inr (u, st)"
  shows "deleteByTag wcmatch s = processTags wcmatch u st s"
proof -
  from assms(3) obtain mt where c: "collectMatch (wcmatch (splitComma pat)) s (filterSet s) = Inr mt"
    and p: "prescan s mt ([], []) = Inr (u, st)"
    by (auto simp: selectedTags_def split: sum.splits)
  show ?thesis
  proof (cases "length mt > 0")
    case True
    with assms(1,2) c p show ?thesis by (simp add: deleteByTag_def)
  next
    case False
    with p have "u = []" "st = []" by simp_all
    with False assms(1,2) c show ?thesis by (simp add: deleteByTag_def processTags_def)
  qed
qed

lemma prescan_exact:
  "prescan s ts (u0, st0) = Inr (u, st) \<Longrightarrow>
     set u = set u0 \<union> {t \<in> set ts. t \<notin> set (excludeTags s) \<and> (\<exists>n. carriedTags s t = Some n \<and> n > 1)} \<and>
     set st = set st0 \<union> {t \<in> set ts. t \<notin> set (excludeTags s) \<and> carriedTags s t = Some 1} \<and>
     (\<forall>t\<in>set ts. t \<notin> set (excludeTags s) \<longrightarrow> carriedTags s t \<noteq> None)"
proof (induction ts arbitrary: u0 st0)
  case Nil
  then show ?case by simp
next
  case (Cons t ts)
  show ?case
  proof (cases "t \<in> set (excludeTags s)")
    case True
    with Cons.prems have "prescan s ts (u0, st0) = Inr (u, st)" by simp
    from Cons.IH[OF this] True show ?thesis by auto
  next
    case False
    with Cons.prems obtain md q where md: "getTagDigest s t = Inr md"
      and q: "getPackageByDigest s md = Some q"
      by (auto split: sum.splits option.splits)
    then have c: "carriedTags s t = Some (length (tags q))" by (simp add: carriedTags_def)
    consider (many) "length (tags q) > 1" | (one) "length (tags q) = 1" | (none) "length (tags q) = 0"
      by linarith
    then show ?thesis
    proof cases
      case many
      with Cons.prems False md q have "prescan s ts (setAdd t u0, st0) = Inr (u, st)" by simp
      from Cons.IH[OF this] False c many show ?thesis by auto
    next
      case one
      with Cons.prems False md q have "prescan s ts (u0, setAdd t st0) = Inr (u, st)" by simp
      from Cons.IH[OF this] False c one show ?thesis by auto
    next
      case none
      with Cons.prems False md q have "prescan s ts (u0, st0) = Inr (u, st)" by simp
      from Cons.IH[OF this] False c none show ?thesis by auto
    qed
  qed
qed

lemma untag_putCalls:
  assumes "untag t m s = Inr s2"
  shows "putCalls (calls s2) = putCalls (calls s) @ [(t, emptyManifest m, manifests m \<noteq> None)]"
proof -
  let ?N = "digestOf (registry s) (emptyManifest m)"
  from assms untag_pushed[of t m s]
  have "s2 = (case getIdByDigest (pushed t m s) ?N of
            None \<Rightarrow> pushed t m s
          | Some i \<Rightarrow> (deletePackageVersion i ?N [t] None (pushed t m s))
                \<lparr>numberImagesDeleted := numberImagesDeleted s + 1\<rparr>)" by simp
  then show ?thesis
    by (cases "getIdByDigest (pushed t m s) ?N")
      (simp_all add: pushed_reads(2) deletePackageVersion_def)
qed

lemma untagLoop_processed:
  "untagLoop u st s = Inr (st', s1) \<Longrightarrow>
     set st \<subseteq> set st' \<and> set st' \<subseteq> set st \<union> set u \<and>
     (\<forall>t\<in>set u. t \<in> set st' \<or> t \<in> pushedTags s1) \<and>
     pushedTags s \<subseteq> pushedTags s1 \<and> pushedTags s1 \<subseteq> pushedTags s \<union> set u"
proof (induction u arbitrary: st s)
  case Nil
  then show ?case by simp
next
  case (Cons t ts)
  from Cons.prems obtain md q where md: "getTagDigest s t = Inr md"
    and q: "getPackageByDigest s md = Some q"
    by (auto split: sum.splits option.splits)
  show ?case
  proof (cases "length (tags q) = 1")
    case True
    with Cons.prems md q have "untagLoop ts (setAdd t st) s = Inr (st', s1)" by simp
    from Cons.IH[OF this] show ?thesis by auto
  next
    case False
    with Cons.prems md q obtain m s2 where m: "getManifestByTag s t = Inr m"
      and u: "untag t m s = Inr s2" and l: "untagLoop ts st s2 = Inr (st', s1)"
      by (auto split: sum.splits)
    from untag_putCalls[OF u] have "pushedTags s2 = insert t (pushedTags s)"
      by (simp add: pushedTags_def)
    with Cons.IH[OF l] show ?thesis by auto
  qed
qed

lemma standardLoop_frame:
  "standardLoop ts s = Inr s' \<Longrightarrow>
     registry s' = registry s \<and> calls s' = calls s \<and> (\<forall>t\<in>set ts. \<exists>d. getTagDigest s t = Inr d)"
proof (induction ts arbitrary: s)
  case Nil
  then show ?case by simp
next
  case (Cons t ts)
  from Cons.prems obtain md where md: "getTagDigest s t = Inr md"
    and l: "standardLoop ts (s\<lparr>deleteSet := setAdd md (deleteSet s),
               filterSet := setDelete md (filterSet s)\<rparr>) = Inr s'"
    by (auto split: sum.splits)
  from Cons.IH[OF l] md show ?case by simp
qed

lemma reload_frame:
  assumes "reload wcmatch s = Inr s'"
  shows "registry s' = registry s" and "calls s' = calls s @ [LoadPackages True]"
proof -
  from assms obtain s3 s4 where u: "loadDigestUsedByMap (reloadStart s) = Inr s3"
    and t: "trimChildren s3 = Inr s4" and a: "ageTrim (excludeTrim wcmatch s4) = Inr s'"
    by (auto simp: reload_def split: sum.splits)
  from u obtain m where "s3 = (reloadStart s)\<lparr>digestUsedBy := Map.empty, digestUsedBy := m\<rparr>"
    unfolding loadDigestUsedByMap_def by (auto dest!: usedByLoop_frame)
  then have "registry s3 = registry s" "calls s3 = calls s @ [LoadPackages True]"
    by (simp_all add: reloadStart_def loadPackages_def Let_def)
  with trimChildren_closed(1)[OF t] have "registry s4 = registry s" "calls s4 = calls s @ [LoadPackages True]"
    by simp_all
  then have "registry (excludeTrim wcmatch s4) = registry s"
    "calls (excludeTrim wcmatch s4) = calls s @ [LoadPackages True]"
    by (simp_all add: excludeTrim_closed)
  with ageTrim_closed[OF a] show "registry s' = registry s" "calls s' = calls s @ [LoadPackages True]"
    by simp_all
qed

lemma getTagDigest_registry: "registry s' = registry s \<Longrightarrow> getTagDigest s' = getTagDigest s"
  by (simp add: fun_eq_iff getTagDigest_def)

lemma deletedByTag_iff:
  "deletedByTag s t = (\<exists>d. getTagDigest s t = Inr d \<and> d \<in> set (deleteSet s))"
  by (cases "getTagDigest s t") (simp_all add: deletedByTag_def)

lemma standardLoop_processed:
  assumes l: "standardLoop st s = Inr s'"
  shows "(\<forall>t\<in>set st. deletedByTag s' t) \<and> pushedTags s' = pushedTags s \<and>
         getTagDigest s' = getTagDigest s \<and>
         set (deleteSet s') = set (deleteSet s) \<union> {d. \<exists>t\<in>set st. getTagDigest s' t = Inr d}"
proof -
  note f = standardLoop_frame[OF l]
  from f have "registry s' = registry s" by blast
  then have g: "getTagDigest s' = getTagDigest s" by (rule getTagDigest_registry)
  from f have p: "pushedTags s' = pushedTags s" by (simp add: pushedTags_def)
  from standardLoop_sets[OF l]
  have d: "set (deleteSet s') = set (deleteSet s) \<union> {d. \<exists>t\<in>set st. getTagDigest s t = Inr d}"
    by simp
  have a: "\<forall>t\<in>set st. deletedByTag s' t"
  proof
    fix t assume t: "t \<in> set st"
    with f obtain x where x: "getTagDigest s t = Inr x" by blast
    with d t have "x \<in> set (deleteSet s')" by blast
    with x g show "deletedByTag s' t" by (simp add: deletedByTag_iff)
  qed
  from a p g d show ?thesis by simp
qed

lemma processTags_processed:
  assumes "processTags wcmatch u st s = Inr s'"
  shows "(\<forall>t\<in>set st. deletedByTag s' t) \<and>
         (\<forall>t\<in>set u. t \<in> pushedTags s' \<or> deletedByTag s' t) \<and>
         pushedTags s' \<subseteq> pushedTags s \<union> set u \<and>
         set (deleteSet s') \<subseteq>
           set (deleteSet s) \<union> {d. \<exists>t\<in>set u \<union> set st. getTagDigest s' t = Inr d}"
proof (cases "u = []")
  case True
  show ?thesis
  proof (cases "st = []")
    case e: True
    with True assms show ?thesis by (simp add: processTags_def)
  next
    case False
    with True assms have l: "standardLoop st s = Inr s'" by (simp add: processTags_def)
    note f = standardLoop_processed[OF l]
    from f have 1: "\<forall>t\<in>set st. deletedByTag s' t" by blast
    from True have 2: "\<forall>t\<in>set u. t \<in> pushedTags s' \<or> deletedByTag s' t" by simp
    from f have 3: "pushedTags s' \<subseteq> pushedTags s \<union> set u" by blast
    from f have "set (deleteSet s') = set (deleteSet s) \<union> {d. \<exists>t\<in>set st. getTagDigest s' t = Inr d}"
      by blast
    then have 4: "set (deleteSet s') \<subseteq>
           set (deleteSet s) \<union> {d. \<exists>t\<in>set u \<union> set st. getTagDigest s' t = Inr d}"
      by blast
    from 1 2 3 4 show ?thesis by (intro conjI)
  qed
next
  case False
  from processTags_order[OF assms False] obtain st' s1 s2
    where ul: "untagLoop u st s = Inr (st', s1)" and r: "reload wcmatch s1 = Inr s2"
    by blast
  from assms False ul r have l: "(if length st' > 0 then standardLoop st' s2 else Inr s2) = Inr s'"
    by (simp add: processTags_def)
  from reload_deleteSet[OF r] have e: "set (deleteSet s2) = {}" by simp
  have f: "(\<forall>t\<in>set st'. deletedByTag s' t) \<and> pushedTags s' = pushedTags s2 \<and>
         set (deleteSet s') = set (deleteSet s2) \<union> {d. \<exists>t\<in>set st'. getTagDigest s' t = Inr d}"
  proof (cases "length st' > 0")
    case True
    with l have "standardLoop st' s2 = Inr s'" by simp
    from standardLoop_processed[OF this] show ?thesis by blast
  next
    case False
    with l show ?thesis by simp
  qed
  from reload_frame(2)[OF r] have "pushedTags s2 = pushedTags s1" by (simp add: pushedTags_def)
  with f have p: "pushedTags s' = pushedTags s1" by simp
  note up = untagLoop_processed[OF ul]
  from f have a: "\<forall>t\<in>set st'. deletedByTag s' t" by blast
  from up have sub: "set st \<subseteq> set st'" "set st' \<subseteq> set st \<union> set u" by blast+
  from up have cov: "\<forall>t\<in>set u. t \<in> set st' \<or> t \<in> pushedTags s1" by blast
  from up have pt: "pushedTags s1 \<subseteq> pushedTags s \<union> set u" by blast
  from a sub(1) have 1: "\<forall>t\<in>set st. deletedByTag s' t" by blast
  from a cov p have 2: "\<forall>t\<in>set u. t \<in> pushedTags s' \<or> deletedByTag s' t" by blast
  from pt p have 3: "pushedTags s' \<subseteq> pushedTags s \<union> set u" by simp
  from f e have "set (deleteSet s') = {d. \<exists>t\<in>set st'. getTagDigest s' t = Inr d}" by simp
  with sub(2) have 4: "set (deleteSet s') \<subseteq>
           set (deleteSet s) \<union> {d. \<exists>t\<in>set u \<union> set st. getTagDigest s' t = Inr d}"
    by blast
  from 1 2 3 4 show ?thesis by (intro conjI)
qed

text \<open>
  Claim C7, amended. Explicit tag deletion resolves the delete-tags pattern against the
  tags of the packages whose digest is in the filter set, leaving out the tags in
  \<^verbatim>\<open>excludeTags\<close>: these are the candidates. When \<^verbatim>\<open>deleteByTag\<close> succeeds, the
  registry resolves every candidate to a listed package, and the pre-scan selects a
  candidate as an untagging tag exactly when that package carries more than one tag, as
  a standard tag exactly when it carries one, and not at all when it carries none.
  Every standard tag ends with the digest it resolves to in the delete set. Every
  untagging tag is either pushed anew (untagged) or, after the recheck at its turn,
  ends like a standard tag. No other tag is pushed, and the delete set gains only
  digests that selected tags resolve to.
\<close>

theorem C7_tags_from_filterSet:
  assumes cfg: "cfg_deleteTags (config s) = Some pat" "pat \<noteq> []"
    and run: "deleteByTag wcmatch s = Inr s'"
  shows "\<exists>u st. selectedTags (wcmatch (splitComma pat)) s = Inr (u, st) \<and>
     set u = {t. candidateTag (wcmatch (splitComma pat)) s t \<and>
                 (\<exists>n. carriedTags s t = Some n \<and> n > 1)} \<and>
     set st = {t. candidateTag (wcmatch (splitComma pat)) s t \<and> carriedTags s t = Some 1} \<and>
     (\<forall>t. candidateTag (wcmatch (splitComma pat)) s t \<longrightarrow> carriedTags s t \<noteq> None) \<and>
     (\<forall>t\<in>set st. deletedByTag s' t) \<and>
     (\<forall>t\<in>set u. t \<in> pushedTags s' \<or> deletedByTag s' t) \<and>
     pushedTags s' \<subseteq> pushedTags s \<union> set u \<and>
     set (deleteSet s') \<subseteq>
       set (deleteSet s) \<union> {d. \<exists>t\<in>set u \<union> set st. getTagDigest s' t = Inr d}"
proof -
  let ?f = "wcmatch (splitComma pat)"
  from cfg run obtain mt where c: "collectMatch ?f s (filterSet s) = Inr mt"
    by (auto simp: deleteByTag_def split: sum.splits)
  have "\<exists>u st. prescan s mt ([], []) = Inr (u, st)"
  proof (cases "length mt > 0")
    case True
    with cfg run c show ?thesis
      by (auto simp: deleteByTag_def split: sum.splits)
  next
    case False
    then show ?thesis by simp
  qed
  then obtain u st where p: "prescan s mt ([], []) = Inr (u, st)" by blast
  with c have sel: "selectedTags ?f s = Inr (u, st)" by (simp add: selectedTags_def)
  from deleteByTag_selected[where wcmatch=wcmatch, OF cfg sel] run
  have pr: "processTags wcmatch u st s = Inr s'" by simp
  note m = collectMatch_set[OF c]
  from m have cand: "\<And>t. candidateTag ?f s t = (t \<in> set mt \<and> t \<notin> set (excludeTags s))"
    by (auto simp: candidateTag_def)
  note q = prescan_exact[OF p]
  from q have 1: "set u = {t. candidateTag ?f s t \<and> (\<exists>n. carriedTags s t = Some n \<and> n > 1)}"
    unfolding cand by auto
  from q have 2: "set st = {t. candidateTag ?f s t \<and> carriedTags s t = Some 1}"
    unfolding cand by auto
  from q have 3: "\<forall>t. candidateTag ?f s t \<longrightarrow> carriedTags s t \<noteq> None"
    unfolding cand by blast
  note w = processTags_processed[OF pr]
  from w have 4: "\<forall>t\<in>set st. deletedByTag s' t" by blast
  from w have 5: "\<forall>t\<in>set u. t \<in> pushedTags s' \<or> deletedByTag s' t" by blast
  from w have 6: "pushedTags s' \<subseteq> pushedTags s \<union> set u" by blast
  from w have 7: "set (deleteSet s') \<subseteq>
       set (deleteSet s) \<union> {d. \<exists>t\<in>set u \<union> set st. getTagDigest s' t = Inr d}" by blast
  from sel 1 2 3 4 5 6 7 show ?thesis by (intro exI[of _ u] exI[of _ st] conjI)
qed

theorem C7_tags_from_filterSet_witness:
  "cfg_deleteTags (config bothTags) = Some ''v1,v2'' \<and>
   filterSet bothTags = [''sha256:d''] \<and>
   getPackageByDigest bothTags ''sha256:d'' = Some (version 1 ''sha256:d'' [''v1'', ''v2'']) \<and>
   selectedTags (literalMatch (splitComma ''v1,v2'')) bothTags = Inr ([''v1'', ''v2''], []) \<and>
   deleteByTag literalMatch bothTags = Inr bothTagsDone \<and>
   ''v1'' \<in> pushedTags bothTagsDone \<and> \<not> deletedByTag bothTagsDone ''v1'' \<and>
   ''v2'' \<notin> pushedTags bothTagsDone \<and> deletedByTag bothTagsDone ''v2'' \<and>
   pushedTags bothTagsDone = {''v1''} \<and>
   deleteSet bothTagsDone = [''sha256:d'']"
proof -
  have c: "cfg_deleteTags (config bothTags) = Some ''v1,v2''" "''v1,v2'' \<noteq> []"
    by (simp_all add: bothTags_def twoTags_def example_defs)
  have f: "filterSet bothTags = [''sha256:d'']"
    "getPackageByDigest bothTags ''sha256:d'' = Some (version 1 ''sha256:d'' [''v1'', ''v2''])"
    by (simp_all add: bothTags_def twoTags_def example_defs read_defs)
  have s: "selectedTags (literalMatch (splitComma ''v1,v2'')) bothTags = Inr ([''v1'', ''v2''], [])"
    by (simp add: bothTags_def twoTags_def example_defs read_defs set_defs tag_defs selectedTags_def)
  have d: "deleteByTag literalMatch bothTags = Inr bothTagsDone"
    by (simp add: bothTags_def bothTagsDone_def twoTags_def untagDone_def example_defs read_defs
        set_defs reload_defs tag_defs untag_defs)
  have p: "pushedTags bothTagsDone = {''v1''}" "pushedTags bothTags = {}"
    by (simp_all add: pushedTags_def bothTags_def bothTagsDone_def untagDone_def twoTags_def example_defs)
  have n: "\<not> deletedByTag bothTagsDone ''v1''" "deleteSet bothTagsDone = [''sha256:d'']"
    by (simp_all add: deletedByTag_def bothTagsDone_def untagDone_def twoTags_def example_defs read_defs)
  from C7_tags_from_filterSet[where wcmatch=literalMatch, OF c d] obtain u st where
    T: "selectedTags (literalMatch (splitComma ''v1,v2'')) bothTags = Inr (u, st)"
      "\<forall>t\<in>set u. t \<in> pushedTags bothTagsDone \<or> deletedByTag bothTagsDone t"
    by blast
  from T(1) s have "u = [''v1'', ''v2'']" by simp
  with T(2) p(1) have v2: "deletedByTag bothTagsDone ''v2''" by simp
  from p(1) have v1: "''v1'' \<in> pushedTags bothTagsDone" "''v2'' \<notin> pushedTags bothTagsDone" by simp_all
  from c(1) f s d v1(1) n(1) v1(2) v2 p(1) n(2) show ?thesis by (intro conjI)
qed

text \<open>
  The claim as stated fails: the match list is built from the filter set (lines
  440-447), not from the tags in use. After a reload whose age trim took the only image
  out of the filter set, the tag \<^verbatim>\<open>v1\<close> is in use, not excluded and matches the
  pattern, and \<^verbatim>\<open>deleteByTag\<close> does nothing.
\<close>

theorem C7_trimmed_tag_counterexample:
  "reload literalMatch (taggedFresh (Some 1000)) = Inr recentTagged \<and>
   ''v1'' \<in> set (tagsInUse recentTagged) \<and>
   ''v1'' \<notin> set (excludeTags recentTagged) \<and>
   cfg_deleteTags (config recentTagged) = Some ''v1'' \<and>
   literalMatch (splitComma ''v1'') ''v1'' \<and>
   getDigestByTag recentTagged ''v1'' = Some ''sha256:d'' \<and>
   filterSet recentTagged = [] \<and>
   deleteByTag literalMatch recentTagged = Inr recentTagged \<and>
   deleteSet recentTagged = [] \<and>
   selectedTags (literalMatch (splitComma ''v1'')) recentTagged = Inr ([], [])"
  by (simp add: recentTagged_def taggedFresh_def example_defs read_defs set_defs reload_defs tag_defs selectedTags_def)

end
